theory Spec2Isabelle
  imports Main
begin

section \<open>The enhanced watershed labeller of MontePython\<close>

text \<open>
  A shallow embedding of \<^verbatim>\<open>monte_python/EnhancedWatershedSegmenter.py\<close>, class
  \<^verbatim>\<open>EnhancedWatershed\<close>.

  Conventions of the embedding.
  \<^item> A 2-D numpy array is a list of rows, each a list of \<open>int\<close>. The input grid is
    the array after \<^verbatim>\<open>np.array(input_grid, dtype=np.int32)\<close>; arithmetic on
    cells is exact (thresholds and values are taken small enough for 32 bits).
  \<^item> A pixel is a pair of Python integers. Coordinates can be negative: the
    code builds them as \<^verbatim>\<open>index - 1 + p\<close> from a window that numpy let wrap
    around, and numpy reads a negative index from the end of the axis.
  \<^item> \<^verbatim>\<open>IndexError\<close> and \<^verbatim>\<open>ZeroDivisionError\<close> are values of a
    sum type; a \<^verbatim>\<open>while\<close> loop is a \<^theory_text>\<open>partial_function\<close> into
    \<open>option\<close>, where \<open>None\<close> stands for a loop that never ends.
  \<^item> The Python lists \<^verbatim>\<open>as_bin\<close>, \<^verbatim>\<open>as_glob\<close>,
    \<^verbatim>\<open>marked_so_far\<close> and \<^verbatim>\<open>hills\<close> are kept newest element first:
    \<^verbatim>\<open>append\<close> is \<open>#\<close> and \<^verbatim>\<open>pop(-1)\<close> takes the head.
  \<^item> The dictionaries \<^verbatim>\<open>pixels\<close> and \<^verbatim>\<open>centers\<close> have the keys
    \<open>0..max_bin\<close> in increasing order; they are lists indexed by the bin.
  \<^item> The influence half-width of a bin is computed by the code in floating point
    (\<^verbatim>\<open>np.sqrt\<close>, \<^verbatim>\<open>np.round\<close>); it is a parameter \<open>infl_dist\<close> of
    the configuration here, and only the division by \<open>max_bin\<close> that raises when
    \<open>max_bin = 0\<close> is kept.
\<close>

subsection \<open>Arrays, indices and slices\<close>

type_synonym grid = "int list list"
type_synonym pixel = "int \<times> int"

datatype error = IndexError | ZeroDivisionError

definition nrows :: "grid \<Rightarrow> nat" where
  "nrows g = length g"

definition ncols :: "grid \<Rightarrow> nat" where
  "ncols g = (case g of [] \<Rightarrow> 0 | r # _ \<Rightarrow> length r)"

definition rect :: "grid \<Rightarrow> bool" where
  "rect g = list_all (\<lambda>r. length r = ncols g) g"

definition same_shape :: "grid \<Rightarrow> grid \<Rightarrow> bool" where
  "same_shape a b = (nrows a = nrows b \<and> ncols a = ncols b)"

text \<open>numpy's integer index on an axis of length \<open>n\<close>: \<open>-n \<le> i < n\<close>, a negative
  index counts from the end, anything else raises \<^verbatim>\<open>IndexError\<close>.\<close>

definition norm_index :: "nat \<Rightarrow> int \<Rightarrow> nat option" where
  "norm_index n i =
     (if 0 \<le> i \<and> i < int n then Some (nat i)
      else if - int n \<le> i \<and> i < 0 then Some (nat (i + int n))
      else None)"

definition locate :: "grid \<Rightarrow> pixel \<Rightarrow> (nat \<times> nat) option" where
  "locate g p =
     (case norm_index (nrows g) (fst p) of
        None \<Rightarrow> None
      | Some r \<Rightarrow> (case norm_index (ncols g) (snd p) of
                     None \<Rightarrow> None
                   | Some c \<Rightarrow> Some (r, c)))"

definition cell :: "grid \<Rightarrow> nat \<times> nat \<Rightarrow> int" where
  "cell g rc = g ! fst rc ! snd rc"

definition set_cell :: "grid \<Rightarrow> nat \<times> nat \<Rightarrow> int \<Rightarrow> grid" where
  "set_cell g rc v = g[fst rc := (g ! fst rc)[snd rc := v]]"

text \<open>\<^verbatim>\<open>a[p]\<close> and \<^verbatim>\<open>a[p] = v\<close> for a tuple \<open>p\<close>.\<close>

definition get_px :: "grid \<Rightarrow> pixel \<Rightarrow> error + int" where
  "get_px g p = (case locate g p of None \<Rightarrow> Inl IndexError | Some rc \<Rightarrow> Inr (cell g rc))"

definition put_px :: "grid \<Rightarrow> pixel \<Rightarrow> int \<Rightarrow> error + grid" where
  "put_px g p v = (case locate g p of None \<Rightarrow> Inl IndexError | Some rc \<Rightarrow> Inr (set_cell g rc v))"

text \<open>numpy's slice \<^verbatim>\<open>a[lo:hi]\<close> on an axis of length \<open>n\<close>: a negative bound
  has \<open>n\<close> added once, then both bounds are clamped to \<open>0..n\<close>. A negative
  \<open>lo\<close> is therefore not clipped to \<open>0\<close>: it wraps to the far end of the axis.\<close>

definition slice_bound :: "nat \<Rightarrow> int \<Rightarrow> nat" where
  "slice_bound n x = (if x < 0 then nat (max 0 (x + int n)) else min (nat x) n)"

definition slice_range :: "nat \<Rightarrow> int \<Rightarrow> int \<Rightarrow> nat list" where
  "slice_range n lo hi = [slice_bound n lo ..< slice_bound n hi]"

text \<open>\<^verbatim>\<open>np.ndenumerate(a[p0-d:p0+d+1, p1-d:p1+d+1])\<close>: the positions of the view in
  row-major order, each with its index inside the view and the cell of \<open>a\<close> it
  stands for. The values are read from the array as the iteration reaches them.\<close>

definition window :: "grid \<Rightarrow> pixel \<Rightarrow> int \<Rightarrow> ((int \<times> int) \<times> (nat \<times> nat)) list" where
  "window g p d =
     (let rows = slice_range (nrows g) (fst p - d) (fst p + d + 1);
          cols = slice_range (ncols g) (snd p - d) (snd p + d + 1)
      in concat (map (\<lambda>(i, r). map (\<lambda>(j, c). ((int i, int j), (r, c))) (enumerate 0 cols))
                     (enumerate 0 rows)))"

subsection \<open>The configuration\<close>

text \<open>\<^verbatim>\<open>__init__\<close>. \<open>max_size\<close> is \<^verbatim>\<open>area_threshold\<close>.
  \<^verbatim>\<open>int((max_thresh - min_thresh) / data_increment)\<close> is a true division
  followed by \<^verbatim>\<open>int\<close>, which truncates towards zero.\<close>

record config =
  min_thresh :: int
  data_increment :: int
  max_thresh :: int
  max_size :: int
  infl_dist :: "nat \<Rightarrow> int"

definition trunc_div :: "int \<Rightarrow> int \<Rightarrow> int" where
  "trunc_div a b = sgn a * sgn b * (\<bar>a\<bar> div \<bar>b\<bar>)"

definition max_bin :: "config \<Rightarrow> int" where
  "max_bin cfg = trunc_div (max_thresh cfg - min_thresh cfg) (data_increment cfg)"

definition min_size :: int where "min_size = 6"
definition UNMARKED :: int where "UNMARKED = -1"
definition GLOBBED :: int where "GLOBBED = -3"
definition TOOSMALL :: int where "TOOSMALL = -4"

subsection \<open>quantize\<close>

text \<open>One cell of \<^verbatim>\<open>data\<close>: the floor division, the exclusion of low levels, then
  the clamp to \<open>max_bin\<close>, in the order of the three array statements.\<close>

definition level :: "config \<Rightarrow> int \<Rightarrow> int" where
  "level cfg v = (v - min_thresh cfg) div data_increment cfg"

definition quantize_cell :: "config \<Rightarrow> int \<Rightarrow> int" where
  "quantize_cell cfg v =
     (let d = level cfg v;
          d1 = (if min_thresh cfg = 0 then (if d \<le> 0 then -1 else d)
                else (if d < 0 then -1 else d))
      in if d1 > max_bin cfg then max_bin cfg else d1)"

definition quantize_data :: "config \<Rightarrow> grid \<Rightarrow> grid" where
  "quantize_data cfg input_grid = map (map (quantize_cell cfg)) input_grid"

text \<open>\<^verbatim>\<open>np.where(data >= 0)\<close>: the coordinates of the cells that hold a bin, in
  row-major order.\<close>

definition good_points :: "grid \<Rightarrow> pixel list" where
  "good_points data =
     concat (map (\<lambda>(r, row). map (\<lambda>(c, v). (int r, int c))
                                 (filter (\<lambda>(c, v). v \<ge> 0) (enumerate 0 row)))
                 (enumerate 0 data))"

text \<open>\<^verbatim>\<open>pixels\<close>: one empty list per key \<open>0..max_bin\<close>, then every good point
  is appended to the list of its value.\<close>

definition add_pixel :: "grid \<Rightarrow> pixel list list \<Rightarrow> pixel \<Rightarrow> pixel list list" where
  "add_pixel data pixels p =
     (let k = nat (cell data (nat (fst p), nat (snd p))) in pixels[k := pixels ! k @ [p]])"

definition quantize_pixels :: "config \<Rightarrow> grid \<Rightarrow> pixel list list" where
  "quantize_pixels cfg data =
     foldl (add_pixel data) (replicate (nat (max_bin cfg + 1)) []) (good_points data)"

definition quantize :: "config \<Rightarrow> grid \<Rightarrow> pixel list list \<times> grid" where
  "quantize cfg input_grid =
     (let data = quantize_data cfg input_grid in (quantize_pixels cfg data, data))"

subsection \<open>find_local_maxima\<close>

text \<open>A \<^verbatim>\<open>for\<close> loop whose body can raise.\<close>

fun for_each :: "('a \<Rightarrow> 's \<Rightarrow> error + 's) \<Rightarrow> 'a list \<Rightarrow> 's \<Rightarrow> error + 's" where
  "for_each f [] s = Inr s"
| "for_each f (x # xs) s = (case f x s of Inl e \<Rightarrow> Inl e | Inr s' \<Rightarrow> for_each f xs s')"

text \<open>A \<^verbatim>\<open>while\<close> loop whose body can raise; \<open>None\<close> is the loop that never
  ends.\<close>

partial_function (option) while_loop ::
  "('s \<Rightarrow> bool) \<Rightarrow> ('s \<Rightarrow> error + 's) \<Rightarrow> 's \<Rightarrow> (error + 's) option" where
  "while_loop cond body s =
     (if cond s then (case body s of Inl e \<Rightarrow> Some (Inl e) | Inr s' \<Rightarrow> while_loop cond body s')
      else Some (Inr s))"

declare while_loop.simps [code]

text \<open>\<^verbatim>\<open>for m in marked_so_far: marked[m] = self.UNMARKED\<close>\<close>

definition unmark :: "pixel list \<Rightarrow> grid \<Rightarrow> error + grid" where
  "unmark ms marked = for_each (\<lambda>m g. put_px g m UNMARKED) ms marked"

text \<open>The loop over the influence square of \<open>p\<close> (lines 125 to 135): an unmarked
  cell sets \<open>ok\<close>, is written \<open>b\<close> at the index recomputed from the position in
  the view, and is remembered; the first cell that is taken ends the loop with
  \<open>ok = False\<close>.\<close>

fun claim_square ::
  "pixel \<Rightarrow> int \<Rightarrow> int \<Rightarrow> ((int \<times> int) \<times> (nat \<times> nat)) list \<Rightarrow> bool \<times> grid \<times> pixel list
     \<Rightarrow> error + (bool \<times> grid \<times> pixel list)" where
  "claim_square p d b [] acc = Inr acc"
| "claim_square p d b (((i, j), rc) # ws) (ok, marked, msf) =
     (if cell marked rc = UNMARKED then
        (let m = (i - d + fst p, j - d + snd p) in
         case put_px marked m b of
           Inl e \<Rightarrow> Inl e
         | Inr marked' \<Rightarrow> claim_square p d b ws (True, marked', m # msf))
      else Inr (False, marked, msf))"

text \<open>The body of the loop over the pixels of bin \<open>b\<close> (lines 117 to 142).\<close>

definition try_center ::
  "nat \<Rightarrow> int \<Rightarrow> pixel \<Rightarrow> grid \<times> pixel list list \<Rightarrow> error + (grid \<times> pixel list list)" where
  "try_center b d p s =
     (let marked = fst s; centers = snd s in
      case get_px marked p of
        Inl e \<Rightarrow> Inl e
      | Inr v \<Rightarrow>
          if v = UNMARKED then
            (case claim_square p d (int b) (window marked p d) (False, marked, []) of
               Inl e \<Rightarrow> Inl e
             | Inr (ok, marked', msf) \<Rightarrow>
                 if ok then Inr (marked', centers[b := centers ! b @ [p]])
                 else (case unmark (rev msf) marked' of
                         Inl e \<Rightarrow> Inl e
                       | Inr marked'' \<Rightarrow> Inr (marked'', centers)))
          else Inr (marked, centers))"

text \<open>The body of the loop over the bins: \<^verbatim>\<open>float(b) / self.max_bin\<close> raises
  when \<open>max_bin = 0\<close>.\<close>

definition maxima_of_bin ::
  "config \<Rightarrow> pixel list list \<Rightarrow> nat \<Rightarrow> grid \<times> pixel list list \<Rightarrow> error + (grid \<times> pixel list list)" where
  "maxima_of_bin cfg pixels b s =
     (if max_bin cfg = 0 then Inl ZeroDivisionError
      else for_each (try_center b (infl_dist cfg b)) (pixels ! b) s)"

definition unmarked_like :: "grid \<Rightarrow> grid" where
  "unmarked_like q_data = map (map (\<lambda>_. UNMARKED)) q_data"

definition find_local_maxima :: "config \<Rightarrow> pixel list list \<Rightarrow> grid \<Rightarrow> error + pixel list list" where
  "find_local_maxima cfg pixels q_data =
     (case for_each (maxima_of_bin cfg pixels) (rev [0 ..< length pixels])
             (unmarked_like q_data, map (\<lambda>_. []) pixels) of
        Inl e \<Rightarrow> Inl e
      | Inr (marked, centers) \<Rightarrow> Inr centers)"

subsection \<open>set_maximum\<close>

text \<open>The local variables of \<^verbatim>\<open>set_maximum\<close> that the \<^verbatim>\<open>while\<close> loop
  changes, with the label grid.\<close>

record flood =
  f_marked :: grid
  as_bin :: "pixel list"
  as_glob :: "pixel list"
  marked_so_far :: "pixel list"
  will_be_considered_again :: bool

text \<open>The loop over the 3 by 3 window of \<open>p\<close> (lines 223 to 234). The grid is not
  written inside this loop.\<close>

fun check_neighbors ::
  "grid \<Rightarrow> grid \<Rightarrow> pixel \<Rightarrow> int \<Rightarrow> int \<Rightarrow> ((int \<times> int) \<times> (nat \<times> nat)) list
     \<Rightarrow> pixel list \<times> pixel list \<times> bool \<Rightarrow> error + (pixel list \<times> pixel list \<times> bool)" where
  "check_neighbors q_data marked p bin_lower center_data [] acc = Inr acc"
| "check_neighbors q_data marked p bin_lower center_data (((i, j), rc) # ws) (ab, ag, w) =
     (if cell marked rc = UNMARKED then
        (let pixel = (i - 1 + fst p, j - 1 + snd p) in
         case get_px q_data pixel of
           Inl e \<Rightarrow> Inl e
         | Inr p_data \<Rightarrow>
             (let w' = (if \<not> w \<and> p_data \<ge> 0 \<and> p_data < center_data then True else w) in
              if p_data \<ge> bin_lower then
                check_neighbors q_data marked p bin_lower center_data ws (pixel # ab, ag, w')
              else if p_data \<ge> 0 then
                check_neighbors q_data marked p bin_lower center_data ws (ab, pixel # ag, w')
              else check_neighbors q_data marked p bin_lower center_data ws (ab, ag, w')))
      else check_neighbors q_data marked p bin_lower center_data ws (ab, ag, w))"

text \<open>One turn of the \<^verbatim>\<open>while\<close> loop (lines 216 to 234), for a non-empty
  \<^verbatim>\<open>as_bin\<close>.\<close>

definition flood_step :: "grid \<Rightarrow> int \<Rightarrow> int \<Rightarrow> int \<Rightarrow> flood \<Rightarrow> error + flood" where
  "flood_step q_data bin_lower center_data capture_index st =
     (let p = hd (as_bin st); rest = tl (as_bin st) in
      case get_px (f_marked st) p of
        Inl e \<Rightarrow> Inl e
      | Inr v \<Rightarrow>
          if v \<noteq> UNMARKED then Inr (st\<lparr>as_bin := rest\<rparr>)
          else
            (case put_px (f_marked st) p capture_index of
               Inl e \<Rightarrow> Inl e
             | Inr marked' \<Rightarrow>
                 (case check_neighbors q_data marked' p bin_lower center_data (window marked' p 1)
                         (rest, as_glob st, will_be_considered_again st) of
                    Inl e \<Rightarrow> Inl e
                  | Inr (ab, ag, w) \<Rightarrow>
                      Inr \<lparr>f_marked = marked', as_bin = ab, as_glob = ag,
                           marked_so_far = p # marked_so_far st,
                           will_be_considered_again = w\<rparr>)))"

definition flood_loop ::
  "grid \<Rightarrow> int \<Rightarrow> int \<Rightarrow> int \<Rightarrow> flood \<Rightarrow> (error + flood) option" where
  "flood_loop q_data bin_lower center_data capture_index =
     while_loop (\<lambda>st. as_bin st \<noteq> []) (flood_step q_data bin_lower center_data capture_index)"

type_synonym foothill = "pixel \<times> pixel list"

text \<open>What follows the loop (lines 235 to 252). The result is the returned flag, the
  label grid and the list \<^verbatim>\<open>foothills\<close>, both of which the code changes in
  place.\<close>

definition finish_maximum ::
  "config \<Rightarrow> pixel \<Rightarrow> int \<Rightarrow> foothill list \<Rightarrow> flood \<Rightarrow> error + (bool \<times> grid \<times> foothill list)" where
  "finish_maximum cfg center bin_lower foothills st =
     (let w = (if bin_lower = 0 then False else will_be_considered_again st);
          big_enough = (int (length (marked_so_far st)) \<ge> max_size cfg)
      in if big_enough then
           Inr (big_enough \<or> \<not> w, f_marked st, foothills @ [(center, as_glob st)])
         else if int (length (marked_so_far st)) \<le> min_size then
           (case unmark (rev (marked_so_far st)) (f_marked st) of
              Inl e \<Rightarrow> Inl e
            | Inr marked' \<Rightarrow> Inr (big_enough \<or> \<not> w, marked', foothills))
         else if w then
           (case unmark (rev (marked_so_far st)) (f_marked st) of
              Inl e \<Rightarrow> Inl e
            | Inr marked' \<Rightarrow> Inr (big_enough \<or> \<not> w, marked', foothills))
         else Inr (big_enough \<or> \<not> w, f_marked st, foothills))"

definition flood_init :: "grid \<Rightarrow> pixel \<Rightarrow> flood" where
  "flood_init marked center =
     \<lparr>f_marked = marked, as_bin = [center], as_glob = [], marked_so_far = [],
      will_be_considered_again = False\<rparr>"

definition set_maximum ::
  "config \<Rightarrow> grid \<Rightarrow> grid \<Rightarrow> pixel \<Rightarrow> int \<Rightarrow> foothill list \<Rightarrow> int
     \<Rightarrow> (error + (bool \<times> grid \<times> foothill list)) option" where
  "set_maximum cfg q_data marked center bin_lower foothills capture_index =
     (case get_px q_data center of
        Inl e \<Rightarrow> Some (Inl e)
      | Inr center_data \<Rightarrow>
          (case flood_loop q_data bin_lower center_data capture_index (flood_init marked center) of
             None \<Rightarrow> None
           | Some (Inl e) \<Rightarrow> Some (Inl e)
           | Some (Inr st) \<Rightarrow> Some (finish_maximum cfg center bin_lower foothills st)))"

subsection \<open>is_closest and remove_foothills\<close>

definition sq_dist :: "pixel \<Rightarrow> pixel \<Rightarrow> int" where
  "sq_dist a b = (fst a - fst b) ^ 2 + (snd a - snd b) ^ 2"

text \<open>\<^verbatim>\<open>is_closest\<close> returns \<^verbatim>\<open>False\<close> at the first center of a bin in
  \<^verbatim>\<open>range(int(bin_num / 2), len(centers.keys()))\<close> that is strictly nearer to
  the point than its own center.\<close>

definition is_closest :: "pixel \<Rightarrow> pixel \<Rightarrow> pixel list list \<Rightarrow> nat \<Rightarrow> bool" where
  "is_closest point center centers bin_num =
     (let my_dist = sq_dist point center in
      list_all (\<lambda>o_bin. list_all (\<lambda>c. \<not> sq_dist point c < my_dist) (centers ! o_bin))
        [bin_num div 2 ..< length centers])"

text \<open>The loop over the 3 by 3 window of a foothill point (lines 278 to 286). The
  conditions are evaluated left to right: \<^verbatim>\<open>q_data[index]\<close> is read for every
  unmarked cell of the window, \<^verbatim>\<open>q_data[pt]\<close> only after the first two tests.\<close>

fun foothill_neighbors ::
  "grid \<Rightarrow> grid \<Rightarrow> pixel \<Rightarrow> int \<Rightarrow> pixel \<Rightarrow> pixel list list \<Rightarrow> nat
     \<Rightarrow> ((int \<times> int) \<times> (nat \<times> nat)) list \<Rightarrow> pixel list \<Rightarrow> error + pixel list" where
  "foothill_neighbors q_data marked pt bin_lower center centers bin_num [] hills = Inr hills"
| "foothill_neighbors q_data marked pt bin_lower center centers bin_num (((i, j), rc) # ws) hills =
     (let index = (i - 1 + fst pt, j - 1 + snd pt) in
      if cell marked rc = UNMARKED then
        (case get_px q_data index of
           Inl e \<Rightarrow> Inl e
         | Inr qi \<Rightarrow>
             if qi \<ge> 0 \<and> qi < bin_lower then
               (case get_px q_data pt of
                  Inl e \<Rightarrow> Inl e
                | Inr qp \<Rightarrow>
                    if qi \<le> qp \<or> is_closest index center centers bin_num then
                      foothill_neighbors q_data marked pt bin_lower center centers bin_num ws
                        (index # hills)
                    else foothill_neighbors q_data marked pt bin_lower center centers bin_num ws
                           hills)
             else foothill_neighbors q_data marked pt bin_lower center centers bin_num ws hills)
      else foothill_neighbors q_data marked pt bin_lower center centers bin_num ws hills)"

text \<open>One turn of the \<^verbatim>\<open>while\<close> loop (lines 275 to 286) on the pair of the
  label grid and \<^verbatim>\<open>hills\<close>, for a non-empty \<^verbatim>\<open>hills\<close>.\<close>

definition hills_step ::
  "grid \<Rightarrow> int \<Rightarrow> pixel \<Rightarrow> pixel list list \<Rightarrow> nat \<Rightarrow> grid \<times> pixel list
     \<Rightarrow> error + (grid \<times> pixel list)" where
  "hills_step q_data bin_lower center centers bin_num s =
     (let pt = hd (snd s); rest = tl (snd s) in
      case put_px (fst s) pt GLOBBED of
        Inl e \<Rightarrow> Inl e
      | Inr marked' \<Rightarrow>
          (case foothill_neighbors q_data marked' pt bin_lower center centers bin_num
                  (window marked' pt 1) rest of
             Inl e \<Rightarrow> Inl e
           | Inr hills' \<Rightarrow> Inr (marked', hills')))"

definition hills_loop ::
  "grid \<Rightarrow> int \<Rightarrow> pixel \<Rightarrow> pixel list list \<Rightarrow> nat \<Rightarrow> grid \<times> pixel list
     \<Rightarrow> (error + (grid \<times> pixel list)) option" where
  "hills_loop q_data bin_lower center centers bin_num =
     while_loop (\<lambda>s. snd s \<noteq> []) (hills_step q_data bin_lower center centers bin_num)"

text \<open>The loop over \<^verbatim>\<open>foothills\<close>; \<^verbatim>\<open>hills[:] = foot[1][:]\<close> copies the
  glob candidates of the record. The caller's list is emptied at the end
  (\<^verbatim>\<open>del foothills[:]\<close>), which \<open>grow_bin\<close> below does.\<close>

fun remove_foothills ::
  "grid \<Rightarrow> grid \<Rightarrow> nat \<Rightarrow> int \<Rightarrow> pixel list list \<Rightarrow> foothill list \<Rightarrow> (error + grid) option" where
  "remove_foothills q_data marked bin_num bin_lower centers [] = Some (Inr marked)"
| "remove_foothills q_data marked bin_num bin_lower centers (foot # foothills) =
     (case hills_loop q_data bin_lower (fst foot) centers bin_num (marked, snd foot) of
        None \<Rightarrow> None
      | Some (Inl e) \<Rightarrow> Some (Inl e)
      | Some (Inr s) \<Rightarrow> remove_foothills q_data (fst s) bin_num bin_lower centers foothills)"

subsection \<open>grow_centers and label\<close>

text \<open>The variables of \<^verbatim>\<open>grow_centers\<close> that live across the turns of its loops.
  \<open>deferred_to_next\<close> and \<open>foothills\<close> are in the order of the Python lists.

  \<open>history\<close> is a ghost variable, not in the code and read by none of its
  decisions: the label grid as allocated, then the label grid after every call of
  \<^verbatim>\<open>set_maximum\<close> and of \<^verbatim>\<open>remove_foothills\<close> that returned. The properties
  that hold throughout one run are stated on it.\<close>

record grower =
  g_marked :: grid
  deferred_to_next :: "pixel list"
  capture_index :: int
  foothills :: "foothill list"
  bin_lower :: int
  history :: "grid list"

text \<open>The body of the loop over the seeds of one bin (lines 173 to 185).\<close>

definition grow_seed :: "config \<Rightarrow> grid \<Rightarrow> pixel \<Rightarrow> grower \<Rightarrow> (error + grower) option" where
  "grow_seed cfg q_data center g =
     (let bl = (if bin_lower g < 0 then 0 else bin_lower g) in
      case get_px (g_marked g) center of
        Inl e \<Rightarrow> Some (Inl e)
      | Inr v \<Rightarrow>
          if v = UNMARKED then
            (case set_maximum cfg q_data (g_marked g) center bl (foothills g) (capture_index g) of
               None \<Rightarrow> None
             | Some (Inl e) \<Rightarrow> Some (Inl e)
             | Some (Inr (captured, marked', foothills')) \<Rightarrow>
                 if \<not> captured then
                   Some (Inr (g\<lparr>g_marked := marked', foothills := foothills', bin_lower := bl,
                                 deferred_to_next := deferred_to_next g @ [center],
                                 history := history g @ [marked']\<rparr>))
                 else
                   Some (Inr (g\<lparr>g_marked := marked', foothills := foothills', bin_lower := bl,
                                 capture_index := capture_index g + 1,
                                 history := history g @ [marked']\<rparr>)))
          else Some (Inr (g\<lparr>bin_lower := bl\<rparr>)))"

text \<open>A \<^verbatim>\<open>for\<close> loop whose body can raise or run for ever.\<close>

fun for_each_opt ::
  "('a \<Rightarrow> 's \<Rightarrow> (error + 's) option) \<Rightarrow> 'a list \<Rightarrow> 's \<Rightarrow> (error + 's) option" where
  "for_each_opt f [] s = Some (Inr s)"
| "for_each_opt f (x # xs) s =
     (case f x s of
        None \<Rightarrow> None
      | Some (Inl e) \<Rightarrow> Some (Inl e)
      | Some (Inr s') \<Rightarrow> for_each_opt f xs s')"

text \<open>The body of the loop over the bins (lines 165 to 187): the seeds are the
  centers deferred from the bin above, then the centers of this bin.\<close>

definition grow_bin ::
  "config \<Rightarrow> grid \<Rightarrow> pixel list list \<Rightarrow> nat \<Rightarrow> grower \<Rightarrow> (error + grower) option" where
  "grow_bin cfg q_data centers b g =
     (let deferred_from_last = deferred_to_next g;
          g0 = g\<lparr>bin_lower := int b - 1, deferred_to_next := []\<rparr>
      in case for_each_opt (grow_seed cfg q_data) (deferred_from_last @ centers ! b) g0 of
           None \<Rightarrow> None
         | Some (Inl e) \<Rightarrow> Some (Inl e)
         | Some (Inr g1) \<Rightarrow>
             (case remove_foothills q_data (g_marked g1) b (bin_lower g1) centers (foothills g1) of
                None \<Rightarrow> None
              | Some (Inl e) \<Rightarrow> Some (Inl e)
              | Some (Inr marked') \<Rightarrow>
                  Some (Inr (g1\<lparr>g_marked := marked', foothills := [],
                                history := history g1 @ [marked']\<rparr>))))"

definition grower_init :: "grid \<Rightarrow> grower" where
  "grower_init q_data =
     \<lparr>g_marked = unmarked_like q_data, deferred_to_next = [], capture_index = 1,
      foothills = [], bin_lower = 0, history = [unmarked_like q_data]\<rparr>"

text \<open>The state of \<^verbatim>\<open>grow_centers\<close> after its loop; the function returns the
  label grid of it. (\<open>bin_lower\<close> is assigned at the start of every turn, its
  initial value here is never read.)\<close>

definition grow_centers_run ::
  "config \<Rightarrow> pixel list list \<Rightarrow> grid \<Rightarrow> (error + grower) option" where
  "grow_centers_run cfg centers q_data =
     for_each_opt (grow_bin cfg q_data centers) (rev [0 ..< length centers]) (grower_init q_data)"

definition grow_centers :: "config \<Rightarrow> pixel list list \<Rightarrow> grid \<Rightarrow> (error + grid) option" where
  "grow_centers cfg centers q_data =
     map_option (map_sum id g_marked) (grow_centers_run cfg centers q_data)"

text \<open>\<^verbatim>\<open>np.where(marked > 0, marked, 0)\<close>\<close>

definition only_positive :: "grid \<Rightarrow> grid" where
  "only_positive marked = map (map (\<lambda>v. if v > 0 then v else 0)) marked"

definition label :: "config \<Rightarrow> grid \<Rightarrow> bool \<Rightarrow> (error + grid) option" where
  "label cfg input_grid only_objects =
     (let pq = quantize cfg input_grid; pixels = fst pq; q_data = snd pq in
      case find_local_maxima cfg pixels q_data of
        Inl e \<Rightarrow> Some (Inl e)
      | Inr centers \<Rightarrow>
          (case grow_centers cfg centers q_data of
             None \<Rightarrow> None
           | Some (Inl e) \<Rightarrow> Some (Inl e)
           | Some (Inr marked) \<Rightarrow>
               Some (Inr (if only_objects then only_positive marked else marked))))"

subsection \<open>The quantizer as the specification words it\<close>



subsection \<open>Predicates of the proofs\<close>

text \<open>Cells inside the array, the cells a set of pixels stands for, and the cells that
  are still unmarked.\<close>

definition inb :: "grid \<Rightarrow> nat \<times> nat \<Rightarrow> bool" where
  "inb g rc = (fst rc < nrows g \<and> snd rc < ncols g)"

definition cells_of :: "grid \<Rightarrow> pixel set \<Rightarrow> (nat \<times> nat) set" where
  "cells_of g P = {rc. \<exists>p\<in>P. locate g p = Some rc}"

definition unmarked_cells :: "grid \<Rightarrow> (nat \<times> nat) set" where
  "unmarked_cells g = {rc. inb g rc \<and> cell g rc = UNMARKED}"

definition bin_px :: "grid \<Rightarrow> int \<Rightarrow> pixel \<Rightarrow> bool" where
  "bin_px q bl p = (case get_px q p of Inl e \<Rightarrow> False | Inr v \<Rightarrow> v \<ge> bl)"

definition glob_px :: "grid \<Rightarrow> int \<Rightarrow> pixel \<Rightarrow> bool" where
  "glob_px q bl p = (case get_px q p of Inl e \<Rightarrow> False | Inr v \<Rightarrow> 0 \<le> v \<and> v < bl)"

definition good_coord :: "nat \<Rightarrow> int \<Rightarrow> bool" where
  "good_coord n x = ((0 \<le> x \<and> x < int n) \<or> (n \<le> 2 \<and> - int n \<le> x \<and> x < 0))"

definition good_px :: "grid \<Rightarrow> pixel \<Rightarrow> bool" where
  "good_px g p = (good_coord (nrows g) (fst p) \<and> good_coord (ncols g) (snd p))"

text \<open>The invariant of the loop of \<^verbatim>\<open>set_maximum\<close>, for a call that starts on the
  label grid \<open>m0\<close>: the grid differs from \<open>m0\<close> exactly on the cells of
  \<^verbatim>\<open>marked_so_far\<close>, which were unmarked and now hold the capture index; every
  pixel of \<^verbatim>\<open>as_bin\<close> is the center or has a level of at least \<open>bin_lower\<close>,
  every pixel of \<^verbatim>\<open>as_glob\<close> a level in \<open>0..<bin_lower\<close>. \<open>flood_rel\<close> is the
  order in which one turn of the loop decreases.\<close>

definition flood_inv :: "grid \<Rightarrow> int \<Rightarrow> int \<Rightarrow> grid \<Rightarrow> pixel \<Rightarrow> flood \<Rightarrow> bool" where
  "flood_inv q bl ci m0 center st =
     (rect (f_marked st) \<and> same_shape m0 (f_marked st)
      \<and> (\<forall>p\<in>set (marked_so_far st). \<exists>rc. locate m0 p = Some rc \<and> cell m0 rc = UNMARKED)
      \<and> distinct (map (locate m0) (marked_so_far st))
      \<and> (\<forall>rc. inb m0 rc \<longrightarrow>
            cell (f_marked st) rc =
              (if rc \<in> cells_of m0 (set (marked_so_far st)) then ci else cell m0 rc))
      \<and> (\<forall>p\<in>set (as_bin st). p = center \<or> bin_px q bl p)
      \<and> (\<forall>p\<in>set (marked_so_far st). p = center \<or> bin_px q bl p)
      \<and> (\<forall>p\<in>set (as_glob st). glob_px q bl p))"

definition flood_good :: "grid \<Rightarrow> flood \<Rightarrow> bool" where
  "flood_good m0 st = (\<forall>p\<in>set (as_bin st) \<union> set (as_glob st). good_px m0 p)"

definition flood_rel :: "(flood \<times> flood) set" where
  "flood_rel = inv_image (less_than <*lex*> less_than)
     (\<lambda>st. (card (unmarked_cells (f_marked st)), length (as_bin st)))"

subsection \<open>Example inputs\<close>

text \<open>A peak of level 3 in the middle of a 3 by 3 plateau of level 1, on a label grid
  that is still unmarked.\<close>

definition ex_cfg :: config where
  "ex_cfg = \<lparr>min_thresh = 0, data_increment = 1, max_thresh = 5, max_size = 100,
             infl_dist = (\<lambda>b. if 3 \<le> b then 2 else 1)\<rparr>"

definition ex_peak :: grid where
  "ex_peak = [[1, 1, 1], [1, 3, 1], [1, 1, 1]]"

definition ex_unmarked3 :: grid where
  "ex_unmarked3 = [[-1, -1, -1], [-1, -1, -1], [-1, -1, -1]]"

text \<open>What holds of the claim map and the centers while \<^verbatim>\<open>find_local_maxima\<close> runs:
  a center of a bin is a pixel of that bin whose influence square is not empty.\<close>

definition centers_ok :: "config \<Rightarrow> pixel list list \<Rightarrow> grid \<Rightarrow> grid \<times> pixel list list \<Rightarrow> bool" where
  "centers_ok cfg pixels q s =
     (same_shape q (fst s) \<and> length (snd s) = length pixels
      \<and> (\<forall>b < length pixels. \<forall>p \<in> set (snd s ! b).
            p \<in> set (pixels ! b) \<and> window q p (infl_dist cfg b) \<noteq> []))"

text \<open>A flat 3 by 3 grid of value 1.\<close>

definition ex_flat :: grid where
  "ex_flat = [[1, 1, 1], [1, 1, 1], [1, 1, 1]]"

text \<open>The neighbourhood as the specification words it: the square of half-width \<open>d\<close>
  around \<open>p\<close>, clipped to the bounds of the grid.\<close>

definition clipped_window :: "grid \<Rightarrow> pixel \<Rightarrow> int \<Rightarrow> (nat \<times> nat) list" where
  "clipped_window g p d =
     List.product
       [nat (max 0 (fst p - d)) ..< nat (min (int (nrows g)) (fst p + d + 1))]
       [nat (max 0 (snd p - d)) ..< nat (min (int (ncols g)) (snd p + d + 1))]"

text \<open>A grid of one row.\<close>

definition ex_row :: grid where
  "ex_row = [[1, 1, 1, 1, 1, 1, 1]]"




text \<open>The invariant of the loop of \<^verbatim>\<open>remove_foothills\<close> for one foothill record, on a
  label grid that was \<open>m0\<close> when the loop started: a cell either is as in \<open>m0\<close> or
  is \<open>GLOBBED\<close> with a level in \<open>0..<bin_lower\<close>, and every pixel of
  \<^verbatim>\<open>hills\<close> has such a level. One turn of the loop decreases in \<open>hills_rel\<close>: it
  marks an unmarked cell, or it pops a pixel whose cell is marked already and
  pushes unmarked ones only.\<close>

definition is_unmarked :: "grid \<Rightarrow> pixel \<Rightarrow> bool" where
  "is_unmarked m p = (get_px m p = Inr UNMARKED)"

definition hills_inv :: "grid \<Rightarrow> int \<Rightarrow> grid \<Rightarrow> grid \<times> pixel list \<Rightarrow> bool" where
  "hills_inv q bl m0 s =
     (rect (fst s) \<and> same_shape m0 (fst s)
      \<and> (\<forall>p\<in>set (snd s). good_px m0 p \<and> glob_px q bl p)
      \<and> (\<forall>rc. inb m0 rc \<longrightarrow>
            cell (fst s) rc = cell m0 rc
            \<or> (cell (fst s) rc = GLOBBED \<and> 0 \<le> cell q rc \<and> cell q rc < bl)))"

definition hills_rel :: "((grid \<times> pixel list) \<times> (grid \<times> pixel list)) set" where
  "hills_rel = inv_image (less_than <*lex*> less_than)
     (\<lambda>s. (card (unmarked_cells (fst s)),
            length (filter (\<lambda>p. \<not> is_unmarked (fst s) p) (snd s))))"

text \<open>A committed cell holds \<open>GLOBBED\<close> or a capture index; \<open>committed_kept m m'\<close>
  says that every committed cell of \<open>m\<close> has the same value in \<open>m'\<close>.\<close>

definition committed :: "int \<Rightarrow> bool" where
  "committed v = (v = GLOBBED \<or> 0 < v)"

definition committed_kept :: "grid \<Rightarrow> grid \<Rightarrow> bool" where
  "committed_kept m m' = list_all2 (list_all2 (\<lambda>a b. committed a \<longrightarrow> b = a)) m m'"

text \<open>The cells that hold the label \<open>l\<close>, and the number of pixels of the object
  \<open>l\<close> in a label grid.\<close>

definition label_cells :: "grid \<Rightarrow> int \<Rightarrow> (nat \<times> nat) set" where
  "label_cells m l = {rc. inb m rc \<and> cell m rc = l}"

definition object_size :: "grid \<Rightarrow> int \<Rightarrow> nat" where
  "object_size m l = count_list (concat m) l"

text \<open>A seed of the bins from \<open>k\<close> upwards: a pixel inside the grid whose level is at
  least \<open>k\<close>.\<close>

definition seed_px :: "grid \<Rightarrow> nat \<Rightarrow> pixel \<Rightarrow> bool" where
  "seed_px q k p =
     (0 \<le> fst p \<and> fst p < int (nrows q) \<and> 0 \<le> snd p \<and> snd p < int (ncols q)
      \<and> int k \<le> cell q (nat (fst p), nat (snd p)))"

text \<open>The invariant of \<^verbatim>\<open>grow_centers\<close>, in parts: the values a label grid holds
  below the capture index \<open>ci\<close>; the levels of the labelled cells; the sizes of the
  objects; the foothill records; the history.\<close>

definition vals_ok :: "grid \<Rightarrow> int \<Rightarrow> grid \<Rightarrow> bool" where
  "vals_ok q ci m =
     (rect m \<and> same_shape q m
      \<and> (\<forall>rc. inb q rc \<longrightarrow>
            cell m rc = UNMARKED \<or> cell m rc = GLOBBED \<or> (1 \<le> cell m rc \<and> cell m rc < ci)))"

definition levels_ok :: "grid \<Rightarrow> int \<Rightarrow> grid \<Rightarrow> bool" where
  "levels_ok q L m = (\<forall>rc. inb q rc \<longrightarrow> 0 < cell m rc \<longrightarrow> L \<le> cell q rc)"

definition sizes_ok :: "config \<Rightarrow> grid \<Rightarrow> bool" where
  "sizes_ok cfg m =
     (\<forall>l. 0 < l \<longrightarrow> label_cells m l = {} \<or> min_size < int (card (label_cells m l))
                     \<or> max_size cfg \<le> int (card (label_cells m l)))"

definition fh_ok :: "grid \<Rightarrow> int \<Rightarrow> foothill list \<Rightarrow> bool" where
  "fh_ok q bl fhs =
     ((fhs = [] \<or> 0 \<le> bl)
      \<and> (\<forall>f\<in>set fhs. \<forall>p\<in>set (snd f). good_px q p \<and> glob_px q bl p))"

definition hist_ok :: "grid \<Rightarrow> grid list \<Rightarrow> grid \<Rightarrow> bool" where
  "hist_ok q hs m =
     (hs \<noteq> [] \<and> hd hs = unmarked_like q \<and> last hs = m \<and> sorted_wrt committed_kept hs
      \<and> (\<forall>h\<in>set hs. rect h \<and> same_shape q h \<and> (\<forall>rc. inb q rc \<longrightarrow> cell h rc \<noteq> TOOSMALL)))"

definition grow_inv :: "config \<Rightarrow> grid \<Rightarrow> grower \<Rightarrow> bool" where
  "grow_inv cfg q g =
     (1 \<le> capture_index g
      \<and> vals_ok q (capture_index g) (g_marked g)
      \<and> levels_ok q (max 0 (bin_lower g)) (g_marked g)
      \<and> sizes_ok cfg (g_marked g)
      \<and> fh_ok q (bin_lower g) (foothills g)
      \<and> hist_ok q (history g) (g_marked g))"

text \<open>What holds between two turns of the loop over the bins, when the bins from \<open>k\<close>
  upwards are done: the invariant for the next value of \<open>bin_lower\<close>, no foothill
  record, and deferred seeds of level \<open>k\<close> at least, none once \<open>k \<le> 1\<close>.\<close>

definition bins_inv :: "config \<Rightarrow> grid \<Rightarrow> nat \<Rightarrow> grower \<Rightarrow> bool" where
  "bins_inv cfg q k g =
     (grow_inv cfg q (g\<lparr>bin_lower := int k - 1\<rparr>) \<and> foothills g = []
      \<and> (\<forall>p\<in>set (deferred_to_next g). seed_px q k p)
      \<and> (k \<le> 1 \<longrightarrow> deferred_to_next g = []))"

text \<open>The configuration \<open>ex_cfg\<close> with an area threshold of 1 and of 7.\<close>

definition ex_cfg1 :: config where
  "ex_cfg1 = \<lparr>min_thresh = 0, data_increment = 1, max_thresh = 5, max_size = 1,
              infl_dist = (\<lambda>b. if 3 \<le> b then 2 else 1)\<rparr>"

definition ex_cfg7 :: config where
  "ex_cfg7 = \<lparr>min_thresh = 0, data_increment = 1, max_thresh = 5, max_size = 7,
              infl_dist = (\<lambda>b. if 3 \<le> b then 2 else 1)\<rparr>"

text \<open>A single pixel of level 1 left of a 3 by 3 block of level 1.\<close>

definition ex_two :: grid where
  "ex_two = [[0, 0, 0, 0, 1, 1, 1], [0, 1, 0, 0, 1, 1, 1], [0, 0, 0, 0, 1, 1, 1]]"

text \<open>The state of \<^verbatim>\<open>grow_centers\<close> at the end of its run on \<open>ex_peak\<close> under
  \<open>ex_cfg1\<close>, on \<open>ex_flat\<close> under \<open>ex_cfg\<close> and on \<open>ex_two\<close> under \<open>ex_cfg\<close>.\<close>

definition ex_peak_run :: grower where
  "ex_peak_run =
     \<lparr>g_marked = [[- 3, - 3, - 3], [- 3, 1, - 3], [- 3, - 3, - 3]],
      deferred_to_next = [], capture_index = 2, foothills = [], bin_lower = - 1,
      history =
        [[[- 1, - 1, - 1], [- 1, - 1, - 1], [- 1, - 1, - 1]],
         [[- 1, - 1, - 1], [- 1, - 1, - 1], [- 1, - 1, - 1]],
         [[- 1, - 1, - 1], [- 1, - 1, - 1], [- 1, - 1, - 1]],
         [[- 1, - 1, - 1], [- 1, 1, - 1], [- 1, - 1, - 1]],
         [[- 3, - 3, - 3], [- 3, 1, - 3], [- 3, - 3, - 3]],
         [[- 3, - 3, - 3], [- 3, 1, - 3], [- 3, - 3, - 3]],
         [[- 3, - 3, - 3], [- 3, 1, - 3], [- 3, - 3, - 3]],
         [[- 3, - 3, - 3], [- 3, 1, - 3], [- 3, - 3, - 3]]]\<rparr>"

definition ex_flat_run :: grower where
  "ex_flat_run =
     \<lparr>g_marked = [[1, 1, 1], [1, 1, 1], [1, 1, 1]], deferred_to_next = [],
      capture_index = 2, foothills = [], bin_lower = - 1,
      history =
        [[[- 1, - 1, - 1], [- 1, - 1, - 1], [- 1, - 1, - 1]],
         [[- 1, - 1, - 1], [- 1, - 1, - 1], [- 1, - 1, - 1]],
         [[- 1, - 1, - 1], [- 1, - 1, - 1], [- 1, - 1, - 1]],
         [[- 1, - 1, - 1], [- 1, - 1, - 1], [- 1, - 1, - 1]],
         [[- 1, - 1, - 1], [- 1, - 1, - 1], [- 1, - 1, - 1]],
         [[1, 1, 1], [1, 1, 1], [1, 1, 1]],
         [[1, 1, 1], [1, 1, 1], [1, 1, 1]],
         [[1, 1, 1], [1, 1, 1], [1, 1, 1]]]\<rparr>"

definition ex_two_unmarked :: grid where
  "ex_two_unmarked = replicate 3 (replicate 7 (- 1))"

definition ex_two_marked :: grid where
  "ex_two_marked = replicate 3 ([- 1, - 1, - 1, - 1, 2, 2, 2])"

definition ex_two_run :: grower where
  "ex_two_run =
     \<lparr>g_marked = ex_two_marked, deferred_to_next = [], capture_index = 3, foothills = [],
      bin_lower = - 1,
      history = replicate 6 ex_two_unmarked @ replicate 3 ex_two_marked\<rparr>"

section \<open>Properties\<close>

subsection \<open>Rules for the while loop\<close>

lemma while_loop_total:
  assumes wf: "wf R" and I0: "I s"
    and step: "\<And>s s'. I s \<Longrightarrow> cond s \<Longrightarrow> body s = Inr s' \<Longrightarrow> I s' \<and> (s', s) \<in> R"
  shows "\<exists>r. while_loop cond body s = Some r \<and>
            (case r of Inl e \<Rightarrow> (\<exists>t. I t \<and> cond t \<and> body t = Inl e) | Inr s' \<Rightarrow> I s' \<and> \<not> cond s')"
  using wf I0
proof (induction s rule: wf_induct_rule)
  case (less s)
  show ?case
  proof (cases "cond s")
    case False
    then show ?thesis using less.prems by (subst while_loop.simps) simp
  next
    case True
    show ?thesis
    proof (cases "body s")
      case (Inl e)
      then show ?thesis using True less.prems by (subst while_loop.simps) auto
    next
      case (Inr s')
      from step[OF less.prems True Inr] have "I s'" "(s', s) \<in> R" by auto
      from less.IH[OF this(2) this(1)] show ?thesis using True Inr
        by (subst while_loop.simps) simp
    qed
  qed
qed

subsection \<open>quantize\<close>





subsection \<open>Arrays\<close>

lemma norm_index_less: "norm_index n i = Some k \<Longrightarrow> k < n"
  by (auto simp: norm_index_def split: if_splits)

lemma locate_inb: "locate g p = Some rc \<Longrightarrow> inb g rc"
  by (auto simp: locate_def inb_def split: option.splits dest: norm_index_less)

lemma locate_same_shape: "same_shape a b \<Longrightarrow> locate a p = locate b p"
  by (auto simp: locate_def same_shape_def split: option.splits)

lemma window_same_shape: "same_shape a b \<Longrightarrow> window a p d = window b p d"
  by (simp add: window_def same_shape_def)

lemma inb_same_shape: "same_shape a b \<Longrightarrow> inb a rc = inb b rc"
  by (simp add: inb_def same_shape_def)

lemma same_shape_refl [simp]: "same_shape a a"
  by (simp add: same_shape_def)

lemma same_shape_trans: "same_shape a b \<Longrightarrow> same_shape b c \<Longrightarrow> same_shape a c"
  by (simp add: same_shape_def)

lemma same_shape_sym: "same_shape a b \<Longrightarrow> same_shape b a"
  by (simp add: same_shape_def)

lemma rect_row: "rect g \<Longrightarrow> r < nrows g \<Longrightarrow> length (g ! r) = ncols g"
  by (simp add: rect_def nrows_def list_all_length)

lemma nrows_set_cell [simp]: "nrows (set_cell g rc v) = nrows g"
  by (simp add: set_cell_def nrows_def)

lemma ncols_set_cell [simp]: "ncols (set_cell g rc v) = ncols g"
  by (cases g; cases "fst rc") (simp_all add: set_cell_def ncols_def)

lemma same_shape_set_cell [simp]: "same_shape g (set_cell g rc v)"
  by (simp add: same_shape_def)

lemma rect_set_cell: "rect g \<Longrightarrow> rect (set_cell g rc v)"
  unfolding rect_def list_all_length ncols_set_cell
  by (cases "fst rc < length g") (auto simp: set_cell_def nth_list_update)

lemma cell_set_cell:
  "rect g \<Longrightarrow> inb g rc \<Longrightarrow> cell (set_cell g rc v) rc' = (if rc' = rc then v else cell g rc')"
  by (cases rc; cases rc')
     (auto simp: cell_def set_cell_def inb_def nth_list_update nrows_def dest: rect_row)

lemma grid_ext:
  assumes "rect a" "rect b" "same_shape a b" "\<And>rc. inb a rc \<Longrightarrow> cell a rc = cell b rc"
  shows "a = b"
proof (rule nth_equalityI)
  show len: "length a = length b" using assms(3) by (simp add: same_shape_def nrows_def)
  fix r assume r: "r < length a"
  show "a ! r = b ! r"
  proof (rule nth_equalityI)
    show "length (a ! r) = length (b ! r)"
      using assms(1,2,3) r len by (simp add: rect_row same_shape_def nrows_def)
    fix c assume "c < length (a ! r)"
    then have "inb a (r, c)" using r assms(1) by (simp add: inb_def nrows_def rect_row)
    from assms(4)[OF this] show "a ! r ! c = b ! r ! c" by (simp add: cell_def)
  qed
qed

lemma finite_unmarked_cells [simp]: "finite (unmarked_cells g)"
proof -
  have "unmarked_cells g \<subseteq> {..< nrows g} \<times> {..< ncols g}"
    by (auto simp: unmarked_cells_def inb_def)
  then show ?thesis by (rule finite_subset) simp
qed

lemma unmarked_cells_set_cell:
  assumes "rect g" "inb g rc" "v \<noteq> UNMARKED"
  shows "unmarked_cells (set_cell g rc v) = unmarked_cells g - {rc}"
  using assms by (auto simp: unmarked_cells_def cell_set_cell inb_def)

lemma card_unmarked_cells_set_cell:
  assumes "rect g" "inb g rc" "v \<noteq> UNMARKED" "cell g rc = UNMARKED"
  shows "card (unmarked_cells (set_cell g rc v)) < card (unmarked_cells g)"
proof -
  have "rc \<in> unmarked_cells g" using assms by (simp add: unmarked_cells_def)
  then have "card (unmarked_cells g - {rc}) < card (unmarked_cells g)"
    by (intro card_Diff1_less) simp_all
  then show ?thesis
    by (simp only: unmarked_cells_set_cell[OF assms(1,2,3)])
qed

lemma get_px_Inr: "get_px g p = Inr v \<longleftrightarrow> (\<exists>rc. locate g p = Some rc \<and> cell g rc = v)"
  by (auto simp: get_px_def split: option.splits)

lemma put_px_Inr: "put_px g p v = Inr g' \<longleftrightarrow> (\<exists>rc. locate g p = Some rc \<and> g' = set_cell g rc v)"
  by (auto simp: put_px_def split: option.splits)

lemma in_enumerate_upt:
  "(i, k) \<in> set (enumerate 0 [a..<b]) \<longleftrightarrow> k = a + i \<and> a + i < b"
  by (auto simp: in_set_enumerate_eq)

lemma slice_axis:
  assumes "good_coord n x" and "(i, k) \<in> set (enumerate 0 (slice_range n (x - 1) (x + 1 + 1)))"
    and "norm_index n (int i - 1 + x) = Some k'"
  shows "k' = k \<and> good_coord n (int i - 1 + x)"
proof -
  from assms(2) have k: "k = slice_bound n (x - 1) + i" "slice_bound n (x - 1) + i < slice_bound n (x + 1 + 1)"
    by (simp_all add: slice_range_def in_enumerate_upt)
  show ?thesis
    using assms(1,3) k
    by (auto simp: good_coord_def norm_index_def slice_bound_def split: if_splits)
qed

lemma window_entry:
  "((i, j), (r, c)) \<in> set (window g p d) \<Longrightarrow>
     (\<exists>i' j'. i = int i' \<and> j = int j'
        \<and> (i', r) \<in> set (enumerate 0 (slice_range (nrows g) (fst p - d) (fst p + d + 1)))
        \<and> (j', c) \<in> set (enumerate 0 (slice_range (ncols g) (snd p - d) (snd p + d + 1))))"
  by (auto simp: window_def Let_def)

lemma window_consistent:
  assumes "good_px g p" and "((i, j), rc) \<in> set (window g p 1)"
    and "locate g (i - 1 + fst p, j - 1 + snd p) = Some rc'"
  shows "rc' = rc \<and> good_px g (i - 1 + fst p, j - 1 + snd p)"
proof -
  obtain r c where rc: "rc = (r, c)" by (cases rc)
  from window_entry[OF assms(2)[unfolded rc]] obtain i' j' where
    ij: "i = int i'" "j = int j'"
    and r: "(i', r) \<in> set (enumerate 0 (slice_range (nrows g) (fst p - 1) (fst p + 1 + 1)))"
    and c: "(j', c) \<in> set (enumerate 0 (slice_range (ncols g) (snd p - 1) (snd p + 1 + 1)))"
    by auto
  from assms(3) obtain r' c' where rc': "rc' = (r', c')"
    and nr: "norm_index (nrows g) (int i' - 1 + fst p) = Some r'"
    and nc: "norm_index (ncols g) (int j' - 1 + snd p) = Some c'"
    by (auto simp: locate_def ij split: option.splits)
  from assms(1) have g: "good_coord (nrows g) (fst p)" "good_coord (ncols g) (snd p)"
    by (simp_all add: good_px_def)
  from slice_axis[OF g(1) r nr] slice_axis[OF g(2) c nc]
  show ?thesis by (simp add: rc rc' good_px_def ij)
qed

subsection \<open>The loop of set_maximum\<close>

lemma wf_flood_rel: "wf flood_rel"
  unfolding flood_rel_def by (intro wf_inv_image wf_lex_prod wf_less_than)

lemma good_px_same_shape: "same_shape a b \<Longrightarrow> good_px a p = good_px b p"
  by (simp add: good_px_def same_shape_def)

lemma check_neighbors_sound:
  assumes "check_neighbors q m p bl cd ws (ab, ag, w) = Inr (ab', ag', w')"
  shows "(\<forall>x\<in>set ab'. x \<in> set ab \<or> bin_px q bl x)
       \<and> (\<forall>x\<in>set ag'. x \<in> set ag \<or> glob_px q bl x)"
  using assms
proof (induction ws arbitrary: ab ag w)
  case Nil
  then show ?case by simp
next
  case (Cons e ws)
  obtain i j rc where e: "e = ((i, j), rc)" by (cases e) auto
  let ?px = "(i - 1 + fst p, j - 1 + snd p)"
  show ?case
  proof (cases "cell m rc = UNMARKED")
    case False
    then have "check_neighbors q m p bl cd ws (ab, ag, w) = Inr (ab', ag', w')"
      using Cons.prems(1) e by simp
    from Cons.IH[OF this] show ?thesis .
  next
    case True
    from Cons.prems(1) e True obtain v where v: "get_px q ?px = Inr v"
      by (cases "get_px q ?px") (simp_all add: Let_def)
    let ?w' = "if \<not> w \<and> v \<ge> 0 \<and> v < cd then True else w"
    consider "v \<ge> bl" | "\<not> v \<ge> bl" "v \<ge> 0" | "\<not> v \<ge> bl" "\<not> v \<ge> 0" by blast
    then show ?thesis
    proof cases
      case 1
      then have "check_neighbors q m p bl cd ws (?px # ab, ag, ?w') = Inr (ab', ag', w')"
        using Cons.prems(1) e True v by (simp add: Let_def)
      from Cons.IH[OF this] show ?thesis
        using 1 v by (auto simp: bin_px_def)
    next
      case 2
      then have "check_neighbors q m p bl cd ws (ab, ?px # ag, ?w') = Inr (ab', ag', w')"
        using Cons.prems(1) e True v by (simp add: Let_def)
      from Cons.IH[OF this] show ?thesis
        using 2 v by (auto simp: glob_px_def)
    next
      case 3
      then have "check_neighbors q m p bl cd ws (ab, ag, ?w') = Inr (ab', ag', w')"
        using Cons.prems(1) e True v by (simp add: Let_def)
      from Cons.IH[OF this] show ?thesis .
    qed
  qed
qed

lemma check_neighbors_good:
  assumes "check_neighbors q m p bl cd ws (ab, ag, w) = Inr (ab', ag', w')"
    and "good_px m p" and "set ws \<subseteq> set (window m p 1)" and "same_shape q m"
  shows "\<forall>x\<in>set ab' \<union> set ag'. x \<in> set ab \<union> set ag \<or> good_px m x"
  using assms(1,3)
proof (induction ws arbitrary: ab ag w)
  case Nil
  then show ?case by simp
next
  case (Cons e ws)
  obtain i j rc where e: "e = ((i, j), rc)" by (cases e) auto
  let ?px = "(i - 1 + fst p, j - 1 + snd p)"
  have inw: "((i, j), rc) \<in> set (window m p 1)" and sub: "set ws \<subseteq> set (window m p 1)"
    using Cons.prems(2) e by auto
  show ?case
  proof (cases "cell m rc = UNMARKED")
    case False
    then have "check_neighbors q m p bl cd ws (ab, ag, w) = Inr (ab', ag', w')"
      using Cons.prems(1) e by simp
    from Cons.IH[OF this sub] show ?thesis .
  next
    case True
    from Cons.prems(1) e True obtain v where v: "get_px q ?px = Inr v"
      by (cases "get_px q ?px") (simp_all add: Let_def)
    then obtain rc' where loc: "locate m ?px = Some rc'"
      using locate_same_shape[OF assms(4), of ?px] by (auto simp: get_px_Inr)
    from window_consistent[OF assms(2) inw loc] have good: "good_px m ?px" by simp
    let ?w' = "if \<not> w \<and> v \<ge> 0 \<and> v < cd then True else w"
    consider "v \<ge> bl" | "\<not> v \<ge> bl" "v \<ge> 0" | "\<not> v \<ge> bl" "\<not> v \<ge> 0" by blast
    then show ?thesis
    proof cases
      case 1
      then have "check_neighbors q m p bl cd ws (?px # ab, ag, ?w') = Inr (ab', ag', w')"
        using Cons.prems(1) e True v by (simp add: Let_def)
      from Cons.IH[OF this sub] show ?thesis
        using good by (metis Un_iff set_ConsD)
    next
      case 2
      then have "check_neighbors q m p bl cd ws (ab, ?px # ag, ?w') = Inr (ab', ag', w')"
        using Cons.prems(1) e True v by (simp add: Let_def)
      from Cons.IH[OF this sub] show ?thesis
        using good by (metis Un_iff set_ConsD)
    next
      case 3
      then have "check_neighbors q m p bl cd ws (ab, ag, ?w') = Inr (ab', ag', w')"
        using Cons.prems(1) e True v by (simp add: Let_def)
      from Cons.IH[OF this sub] show ?thesis .
    qed
  qed
qed

lemma cells_of_insert:
  "locate g p = Some rc \<Longrightarrow> cells_of g (insert p P) = insert rc (cells_of g P)"
  by (auto simp: cells_of_def)

lemma flood_step_inv:
  assumes inv: "flood_inv q bl ci m0 center st" and ne: "as_bin st \<noteq> []"
    and step: "flood_step q bl cd ci st = Inr st'"
    and ci: "ci \<noteq> UNMARKED"
  shows "flood_inv q bl ci m0 center st' \<and> (st', st) \<in> flood_rel"
proof -
  obtain p rest where ab: "as_bin st = p # rest" using ne by (cases "as_bin st") auto
  let ?m = "f_marked st"
  from inv have rm: "rect ?m" and sm: "same_shape m0 ?m"
    and b: "\<forall>p\<in>set (marked_so_far st). \<exists>rc. locate m0 p = Some rc \<and> cell m0 rc = UNMARKED"
    and c: "distinct (map (locate m0) (marked_so_far st))"
    and d: "\<forall>rc. inb m0 rc \<longrightarrow> cell ?m rc =
              (if rc \<in> cells_of m0 (set (marked_so_far st)) then ci else cell m0 rc)"
    and e: "\<forall>p\<in>set (as_bin st). p = center \<or> bin_px q bl p"
    and g: "\<forall>p\<in>set (marked_so_far st). p = center \<or> bin_px q bl p"
    and f: "\<forall>p\<in>set (as_glob st). glob_px q bl p"
    by (simp_all add: flood_inv_def)
  from step ab obtain v where v: "get_px ?m p = Inr v"
    by (cases "get_px ?m p") (simp_all add: flood_step_def)
  show ?thesis
  proof (cases "v = UNMARKED")
    case False
    then have st': "st' = st\<lparr>as_bin := rest\<rparr>"
      using step ab v by (simp add: flood_step_def)
    have "flood_inv q bl ci m0 center st'"
      using inv ab by (simp add: st' flood_inv_def)
    moreover have "(st', st) \<in> flood_rel"
      by (simp add: st' flood_rel_def ab)
    ultimately show ?thesis by simp
  next
    case True
    from v True obtain rc where loc: "locate ?m p = Some rc" and cu: "cell ?m rc = UNMARKED"
      by (auto simp: get_px_Inr)
    have loc0: "locate m0 p = Some rc" using loc locate_same_shape[OF sm] by simp
    have inb0: "inb m0 rc" using loc0 by (rule locate_inb)
    have inbm: "inb ?m rc" using loc by (rule locate_inb)
    let ?m' = "set_cell ?m rc ci"
    have put: "put_px ?m p ci = Inr ?m'" using loc by (simp add: put_px_def)
    from step ab v True put obtain ab' ag' w' where
      cn: "check_neighbors q ?m' p bl cd (window ?m' p 1)
             (rest, as_glob st, will_be_considered_again st) = Inr (ab', ag', w')"
      and st': "st' = \<lparr>f_marked = ?m', as_bin = ab', as_glob = ag',
                       marked_so_far = p # marked_so_far st, will_be_considered_again = w'\<rparr>"
      by (auto simp: flood_step_def split: sum.splits)
    have sm': "same_shape m0 ?m'" using sm by (simp add: same_shape_def)
    from check_neighbors_sound[OF cn]
    have ab': "\<forall>x\<in>set ab'. x \<in> set rest \<or> bin_px q bl x"
      and ag': "\<forall>x\<in>set ag'. x \<in> set (as_glob st) \<or> glob_px q bl x"
      by simp_all
    have notin: "rc \<notin> cells_of m0 (set (marked_so_far st))" and c0: "cell m0 rc = UNMARKED"
      using d[rule_format, OF inb0] cu ci by (simp_all split: if_splits)
    have nl: "Some rc \<notin> set (map (locate m0) (marked_so_far st))"
      using notin by (auto simp: cells_of_def)
    have d': "\<forall>rc'. inb m0 rc' \<longrightarrow> cell ?m' rc' =
              (if rc' \<in> cells_of m0 (set (p # marked_so_far st)) then ci else cell m0 rc')"
      using d by (auto simp: cell_set_cell[OF rm inbm] cells_of_insert[OF loc0])
    have b': "\<forall>x\<in>set (p # marked_so_far st). \<exists>rc. locate m0 x = Some rc \<and> cell m0 rc = UNMARKED"
      using b loc0 c0 by (cases rc) auto
    have c': "distinct (map (locate m0) (p # marked_so_far st))"
      using c nl loc0 by simp
    have e': "\<forall>x\<in>set ab'. x = center \<or> bin_px q bl x"
      using ab' e ab by auto
    have g': "\<forall>x\<in>set (p # marked_so_far st). x = center \<or> bin_px q bl x"
      using g e ab by auto
    have f': "\<forall>x\<in>set ag'. glob_px q bl x"
      using ag' f by auto
    have "flood_inv q bl ci m0 center st'"
      unfolding flood_inv_def st'
      using rect_set_cell[OF rm] sm' b' c' d' e' g' f'
      by simp
    moreover have "(st', st) \<in> flood_rel"
      using card_unmarked_cells_set_cell[OF rm inbm ci cu]
      by (simp add: st' flood_rel_def)
    ultimately show ?thesis by simp
  qed
qed

lemma flood_step_good:
  assumes good: "flood_good m0 st" and ne: "as_bin st \<noteq> []"
    and step: "flood_step q bl cd ci st = Inr st'"
    and sm: "same_shape m0 (f_marked st)" and qs: "same_shape q m0"
  shows "flood_good m0 st'"
proof -
  obtain p rest where ab: "as_bin st = p # rest" using ne by (cases "as_bin st") auto
  let ?m = "f_marked st"
  from step ab obtain v where v: "get_px ?m p = Inr v"
    by (cases "get_px ?m p") (simp_all add: flood_step_def)
  show ?thesis
  proof (cases "v = UNMARKED")
    case False
    then have st': "st' = st\<lparr>as_bin := rest\<rparr>"
      using step ab v by (simp add: flood_step_def)
    show ?thesis using good ab by (simp add: st' flood_good_def)
  next
    case True
    from v obtain rc where loc: "locate ?m p = Some rc"
      by (auto simp: get_px_Inr)
    let ?m' = "set_cell ?m rc ci"
    have put: "put_px ?m p ci = Inr ?m'" using loc by (simp add: put_px_def)
    from step ab v True put obtain ab' ag' w' where
      cn: "check_neighbors q ?m' p bl cd (window ?m' p 1)
             (rest, as_glob st, will_be_considered_again st) = Inr (ab', ag', w')"
      and st': "st' = \<lparr>f_marked = ?m', as_bin = ab', as_glob = ag',
                       marked_so_far = p # marked_so_far st, will_be_considered_again = w'\<rparr>"
      by (auto simp: flood_step_def split: sum.splits)
    have sm': "same_shape m0 ?m'" using sm by (simp add: same_shape_def)
    have gs: "\<And>x. good_px ?m' x = good_px m0 x"
      by (simp add: good_px_same_shape[OF sm'])
    have gp: "good_px ?m' p" using good ab gs by (simp add: flood_good_def)
    have qm': "same_shape q ?m'" using qs sm' by (rule same_shape_trans)
    from check_neighbors_good[OF cn gp subset_refl qm']
    show ?thesis using good ab gs by (auto simp: st' flood_good_def)
  qed
qed

lemma cells_of_same_shape: "same_shape a b \<Longrightarrow> cells_of a P = cells_of b P"
  by (simp add: cells_of_def locate_same_shape)

lemma unmark_ok:
  assumes "rect g" and "\<forall>p\<in>set ms. locate g p \<noteq> None"
  shows "\<exists>g'. unmark ms g = Inr g' \<and> rect g' \<and> same_shape g g'
           \<and> (\<forall>rc. cell g' rc = (if rc \<in> cells_of g (set ms) then UNMARKED else cell g rc))"
  using assms
proof (induction ms arbitrary: g)
  case Nil
  then show ?case by (simp add: unmark_def cells_of_def)
next
  case (Cons p ps)
  from Cons.prems(2) obtain rc where loc: "locate g p = Some rc" by auto
  let ?g1 = "set_cell g rc UNMARKED"
  have inb: "inb g rc" using loc by (rule locate_inb)
  have r1: "rect ?g1" using Cons.prems(1) by (rule rect_set_cell)
  have s1: "same_shape g ?g1" by simp
  have l1: "\<forall>p\<in>set ps. locate ?g1 p \<noteq> None"
    using Cons.prems(2) locate_same_shape[OF s1] by simp
  from Cons.IH[OF r1 l1] obtain g' where
    u: "unmark ps ?g1 = Inr g'" and rg: "rect g'" and sg: "same_shape ?g1 g'"
    and cg: "\<forall>rc'. cell g' rc' = (if rc' \<in> cells_of ?g1 (set ps) then UNMARKED else cell ?g1 rc')"
    by blast
  have "unmark (p # ps) g = Inr g'"
    using u loc by (simp add: unmark_def put_px_def)
  moreover have "same_shape g g'" using s1 sg by (rule same_shape_trans)
  moreover have "\<forall>rc'. cell g' rc' =
      (if rc' \<in> cells_of g (set (p # ps)) then UNMARKED else cell g rc')"
    using cg cells_of_same_shape[OF s1, of "set ps"]
    by (auto simp: cell_set_cell[OF Cons.prems(1) inb] cells_of_insert[OF loc])
  ultimately show ?case using rg by blast
qed

lemma flood_rollback:
  assumes inv: "flood_inv q bl ci m0 center st" and r0: "rect m0"
  shows "unmark (rev (marked_so_far st)) (f_marked st) = Inr m0"
proof -
  let ?m = "f_marked st"
  from inv have rm: "rect ?m" and sm: "same_shape m0 ?m"
    and b: "\<forall>p\<in>set (marked_so_far st). \<exists>rc. locate m0 p = Some rc \<and> cell m0 rc = UNMARKED"
    and d: "\<forall>rc. inb m0 rc \<longrightarrow> cell ?m rc =
              (if rc \<in> cells_of m0 (set (marked_so_far st)) then ci else cell m0 rc)"
    by (simp_all add: flood_inv_def)
  have "\<forall>p\<in>set (rev (marked_so_far st)). locate ?m p \<noteq> None"
    using b locate_same_shape[OF sm] by fastforce
  from unmark_ok[OF rm this] obtain g' where
    u: "unmark (rev (marked_so_far st)) ?m = Inr g'" and rg: "rect g'" and sg: "same_shape ?m g'"
    and cg: "\<forall>rc. cell g' rc =
        (if rc \<in> cells_of ?m (set (rev (marked_so_far st))) then UNMARKED else cell ?m rc)"
    by blast
  have ce: "cells_of ?m (set (rev (marked_so_far st))) = cells_of m0 (set (marked_so_far st))"
    using cells_of_same_shape[OF sm] by simp
  have "g' = m0"
  proof (rule grid_ext[OF rg r0])
    show "same_shape g' m0" using sm sg by (simp add: same_shape_def)
  next
    fix rc assume "inb g' rc"
    then have i0: "inb m0 rc" using sm sg by (simp add: inb_def same_shape_def)
    show "cell g' rc = cell m0 rc"
    proof (cases "rc \<in> cells_of m0 (set (marked_so_far st))")
      case True
      then have "cell m0 rc = UNMARKED" using b by (fastforce simp: cells_of_def)
      then show ?thesis using cg[rule_format, of rc] ce True by simp
    next
      case False
      then show ?thesis using cg[rule_format, of rc] ce d[rule_format, OF i0] by simp
    qed
  qed
  then show ?thesis using u by simp
qed

lemma flood_inv_init:
  assumes "rect m0"
  shows "flood_inv q bl ci m0 center (flood_init m0 center)"
  using assms by (simp add: flood_inv_def flood_init_def cells_of_def)

lemma flood_loop_total:
  assumes r0: "rect m0" and ci: "ci \<noteq> UNMARKED"
  shows "\<exists>r. flood_loop q bl cd ci (flood_init m0 center) = Some r \<and>
           (case r of Inl e \<Rightarrow> True
            | Inr st \<Rightarrow> flood_inv q bl ci m0 center st \<and> as_bin st = [])"
proof -
  have "\<exists>r. while_loop (\<lambda>st. as_bin st \<noteq> []) (flood_step q bl cd ci) (flood_init m0 center) = Some r \<and>
            (case r of Inl e \<Rightarrow> (\<exists>t. flood_inv q bl ci m0 center t \<and> as_bin t \<noteq> [] \<and> flood_step q bl cd ci t = Inl e)
             | Inr s' \<Rightarrow> flood_inv q bl ci m0 center s' \<and> \<not> as_bin s' \<noteq> [])"
    by (rule while_loop_total[OF wf_flood_rel, where I = "flood_inv q bl ci m0 center",
          OF flood_inv_init[OF r0]])
       (rule flood_step_inv[OF _ _ _ ci])
  then show ?thesis
    by (auto simp: flood_loop_def split: sum.splits)
qed

lemma flood_loop_good:
  assumes r0: "rect m0" and ci: "ci \<noteq> UNMARKED" and qs: "same_shape q m0"
    and gc: "good_px m0 center"
    and run: "flood_loop q bl cd ci (flood_init m0 center) = Some (Inr st)"
  shows "flood_good m0 st"
proof -
  let ?I = "\<lambda>st. flood_inv q bl ci m0 center st \<and> flood_good m0 st"
  have I0: "?I (flood_init m0 center)"
    using flood_inv_init[OF r0] gc by (simp add: flood_good_def flood_init_def)
  have "\<exists>r. while_loop (\<lambda>st. as_bin st \<noteq> []) (flood_step q bl cd ci) (flood_init m0 center) = Some r \<and>
            (case r of Inl e \<Rightarrow> (\<exists>t. ?I t \<and> as_bin t \<noteq> [] \<and> flood_step q bl cd ci t = Inl e)
             | Inr s' \<Rightarrow> ?I s' \<and> \<not> as_bin s' \<noteq> [])"
  proof (rule while_loop_total[OF wf_flood_rel, where I = ?I, OF I0])
    fix s s' assume I: "?I s" and ne: "as_bin s \<noteq> []" and st: "flood_step q bl cd ci s = Inr s'"
    from I have sm: "same_shape m0 (f_marked s)" by (simp add: flood_inv_def)
    show "?I s' \<and> (s', s) \<in> flood_rel"
      using flood_step_inv[OF _ ne st ci, of m0 center] flood_step_good[OF _ ne st sm qs] I
      by simp
  qed
  then show ?thesis using run by (auto simp: flood_loop_def)
qed

subsection \<open>set_maximum\<close>

lemma finish_maximum_cases:
  assumes inv: "flood_inv q bl ci m0 center st" and r0: "rect m0"
  shows "finish_maximum cfg center bl fh st =
     (let w = (bl \<noteq> 0 \<and> will_be_considered_again st);
          n = int (length (marked_so_far st))
      in if n \<ge> max_size cfg then Inr (True, f_marked st, fh @ [(center, as_glob st)])
         else if n \<le> min_size \<or> w then Inr (\<not> w, m0, fh)
         else Inr (True, f_marked st, fh))"
  using flood_rollback[OF inv r0]
  by (auto simp: finish_maximum_def Let_def)

text \<open>
  Claim C1, as amended. A call of \<^verbatim>\<open>set_maximum\<close> with a capture index other than
  \<open>UNMARKED\<close> ends. When it returns, with \<open>st\<close> the variables at the end of its
  loop: it returns true exactly when the region reached the maximum size
  (\<open>len(marked_so_far) \<ge> max_size\<close>) or is not eligible for reconsideration
  (\<open>bin_lower = 0\<close> or \<open>will_be_considered_again\<close> is false); when it returns false
  the label grid and the foothill list are those of the start of the call; and a
  region below the maximum size with at most \<open>min_size\<close> pixels is rolled back too,
  whatever is returned. (The theorem does not need the seed's cell to be unmarked.)
\<close>

theorem set_maximum_contract:
  assumes "rect marked" and "cidx \<noteq> UNMARKED"
  shows "\<exists>r. set_maximum cfg q_data marked center bl fhs cidx = Some r \<and>
     (case r of
        Inl e \<Rightarrow> True
      | Inr (captured, marked', fhs') \<Rightarrow>
          (\<exists>center_data st.
             get_px q_data center = Inr center_data
           \<and> flood_loop q_data bl center_data cidx (flood_init marked center)
               = Some (Inr st)
           \<and> captured = (int (length (marked_so_far st)) \<ge> max_size cfg \<or> bl = 0
                          \<or> \<not> will_be_considered_again st)
           \<and> (\<not> captured \<longrightarrow> marked' = marked \<and> fhs' = fhs)
           \<and> (int (length (marked_so_far st)) < max_size cfg
                 \<and> int (length (marked_so_far st)) \<le> min_size \<longrightarrow> marked' = marked)))"
proof (cases "get_px q_data center")
  case (Inl e)
  then show ?thesis by (simp add: set_maximum_def)
next
  case (Inr cd)
  from flood_loop_total[OF assms, of q_data bl cd center] obtain r where
    r: "flood_loop q_data bl cd cidx (flood_init marked center) = Some r"
    and rI: "case r of Inl e \<Rightarrow> True
             | Inr st \<Rightarrow> flood_inv q_data bl cidx marked center st \<and> as_bin st = []"
    by blast
  show ?thesis
  proof (cases r)
    case (Inl e)
    then show ?thesis using Inr r by (simp add: set_maximum_def)
  next
    case st: (Inr st)
    then have inv: "flood_inv q_data bl cidx marked center st" using rI by simp
    have sm: "set_maximum cfg q_data marked center bl fhs cidx
                = Some (finish_maximum cfg center bl fhs st)"
      using Inr r st by (simp add: set_maximum_def)
    show ?thesis
      unfolding sm finish_maximum_cases[OF inv assms(1)]
      using Inr r st by (auto simp: Let_def)
  qed
qed

lemma ex_set_maximum:
  "set_maximum ex_cfg ex_peak ex_unmarked3 (1, 1) 2 [] 1 = Some (Inr (False, ex_unmarked3, []))"
  by code_simp

lemma ex_flood_loop:
  "flood_loop ex_peak 2 3 1 (flood_init ex_unmarked3 (1, 1)) =
     Some (Inr \<lparr>f_marked = [[-1, -1, -1], [-1, 1, -1], [-1, -1, -1]], as_bin = [],
                as_glob = [(2, 2), (2, 1), (2, 0), (1, 2), (1, 0), (0, 2), (0, 1), (0, 0)],
                marked_so_far = [(1, 1)], will_be_considered_again = True\<rparr>)"
  by code_simp

theorem set_maximum_contract_witness:
  "rect ex_unmarked3 \<and> (1::int) \<noteq> UNMARKED
   \<and> get_px ex_unmarked3 (1, 1) = Inr UNMARKED
   \<and> set_maximum ex_cfg ex_peak ex_unmarked3 (1, 1) 2 [] 1 = Some (Inr (False, ex_unmarked3, []))
   \<and> (\<exists>r. set_maximum ex_cfg ex_peak ex_unmarked3 (1, 1) 2 [] 1 = Some r \<and>
     (case r of
        Inl e \<Rightarrow> True
      | Inr (captured, marked', fhs') \<Rightarrow>
          (\<exists>center_data st.
             get_px ex_peak (1, 1) = Inr center_data
           \<and> flood_loop ex_peak 2 center_data 1 (flood_init ex_unmarked3 (1, 1))
               = Some (Inr st)
           \<and> captured = (int (length (marked_so_far st)) \<ge> max_size ex_cfg \<or> (2::int) = 0
                          \<or> \<not> will_be_considered_again st)
           \<and> (\<not> captured \<longrightarrow> marked' = ex_unmarked3 \<and> fhs' = [])
           \<and> (int (length (marked_so_far st)) < max_size ex_cfg
                 \<and> int (length (marked_so_far st)) \<le> min_size \<longrightarrow> marked' = ex_unmarked3))))"
proof -
  have r: "rect ex_unmarked3" by (simp add: rect_def ex_unmarked3_def ncols_def)
  have c: "(1::int) \<noteq> UNMARKED" by (simp add: UNMARKED_def)
  have g: "get_px ex_unmarked3 (1, 1) = Inr UNMARKED" by code_simp
  from set_maximum_contract[OF r c, of ex_cfg ex_peak "(1, 1)" 2 "[]"] r c g ex_set_maximum
  show ?thesis by simp
qed

text \<open>The claim as stated fails on the peak: at \<open>bin_lower = 2\<close> the region is the
  single pixel of the peak, at most \<open>min_size\<close>, and its neighbours of level 1 make it
  eligible for reconsideration; the code returns false, where the claim has it return
  true for a pixel count at or below \<open>min_size\<close>.\<close>

theorem set_maximum_too_small_counterexample:
  "set_maximum ex_cfg ex_peak ex_unmarked3 (1, 1) 2 [] 1 = Some (Inr (False, ex_unmarked3, []))
   \<and> map_option (map_sum id (\<lambda>st. int (length (marked_so_far st)) \<le> min_size))
        (flood_loop ex_peak 2 3 1 (flood_init ex_unmarked3 (1, 1))) = Some (Inr True)"
  by (simp add: ex_set_maximum ex_flood_loop min_size_def)

subsection \<open>find_local_maxima\<close>

lemma for_each_inv:
  assumes "for_each f xs s = Inr s'" and "I s"
    and "\<And>x s s'. x \<in> set xs \<Longrightarrow> I s \<Longrightarrow> f x s = Inr s' \<Longrightarrow> I s'"
  shows "I s'"
  using assms
proof (induction xs arbitrary: s)
  case Nil
  then show ?case by simp
next
  case (Cons x xs)
  from Cons.prems(1) obtain s1 where s1: "f x s = Inr s1" and r: "for_each f xs s1 = Inr s'"
    by (cases "f x s") simp_all
  have s1I: "I s1" using Cons.prems(3)[OF _ Cons.prems(2) s1] by simp
  have step: "I t'" if "y \<in> set xs" "I t" "f y t = Inr t'" for y t t'
    using Cons.prems(3)[of y t t'] that by simp
  show ?case by (rule Cons.IH[OF r s1I]) (rule step)
qed

lemma put_px_shape:
  "put_px g p v = Inr g' \<Longrightarrow> same_shape g g' \<and> (rect g \<longrightarrow> rect g')"
  by (auto simp: put_px_Inr rect_set_cell)

lemma unmark_shape:
  "unmark ms g = Inr g' \<Longrightarrow> same_shape g g' \<and> (rect g \<longrightarrow> rect g')"
  unfolding unmark_def
  by (rule for_each_inv[where I = "\<lambda>x. same_shape g x \<and> (rect g \<longrightarrow> rect x)"])
     (auto dest!: put_px_shape intro: same_shape_trans)

lemma claim_square_props:
  assumes "claim_square p d b ws (ok, m, msf) = Inr (ok', m', msf')"
  shows "same_shape m m' \<and> (rect m \<longrightarrow> rect m') \<and> (ok' \<longrightarrow> ok \<or> ws \<noteq> [])"
  using assms
proof (induction ws arbitrary: ok m msf)
  case Nil
  then show ?case by simp
next
  case (Cons e ws)
  obtain i j rc where e: "e = ((i, j), rc)" by (cases e) auto
  show ?case
  proof (cases "cell m rc = UNMARKED")
    case False
    then show ?thesis using Cons.prems e by simp
  next
    case True
    let ?x = "(i - d + fst p, j - d + snd p)"
    from Cons.prems e True obtain m1 where m1: "put_px m ?x b = Inr m1"
      and r: "claim_square p d b ws (True, m1, ?x # msf) = Inr (ok', m', msf')"
      by (cases "put_px m ?x b") (simp_all add: Let_def)
    from Cons.IH[OF r] put_px_shape[OF m1] show ?thesis
      by (auto intro: same_shape_trans)
  qed
qed

lemma try_center_ok:
  assumes ok: "centers_ok cfg pixels q s" and b: "b < length pixels" and p: "p \<in> set (pixels ! b)"
    and t: "try_center b (infl_dist cfg b) p s = Inr s'"
  shows "centers_ok cfg pixels q s'"
proof -
  obtain m cs where s: "s = (m, cs)" by (cases s)
  from ok s have sq: "same_shape q m" and len: "length cs = length pixels"
    and cs: "\<forall>b < length pixels. \<forall>p \<in> set (cs ! b).
            p \<in> set (pixels ! b) \<and> window q p (infl_dist cfg b) \<noteq> []"
    by (simp_all add: centers_ok_def)
  from t s obtain v where v: "get_px m p = Inr v"
    by (cases "get_px m p") (simp_all add: try_center_def)
  show ?thesis
  proof (cases "v = UNMARKED")
    case False
    then have "s' = s" using t s v by (simp add: try_center_def)
    then show ?thesis using ok by simp
  next
    case True
    from t s v True obtain ok' m' msf where
      c: "claim_square p (infl_dist cfg b) (int b) (window m p (infl_dist cfg b)) (False, m, [])
            = Inr (ok', m', msf)"
      by (cases "claim_square p (infl_dist cfg b) (int b) (window m p (infl_dist cfg b)) (False, m, [])")
         (auto simp: try_center_def)
    from claim_square_props[OF c] have sm: "same_shape m m'"
      and w: "ok' \<longrightarrow> window m p (infl_dist cfg b) \<noteq> []" by simp_all
    have wq: "window m p (infl_dist cfg b) = window q p (infl_dist cfg b)"
      using window_same_shape[OF sq] by simp
    show ?thesis
    proof (cases ok')
      case True
      then have s': "s' = (m', cs[b := cs ! b @ [p]])"
        using t s v \<open>v = UNMARKED\<close> c by (simp add: try_center_def)
      show ?thesis
        unfolding centers_ok_def s'
        using sq sm len cs w True wq p b
        by (auto simp: nth_list_update intro: same_shape_trans)
    next
      case False
      then obtain m'' where u: "unmark (rev msf) m' = Inr m''" and s': "s' = (m'', cs)"
        using t s v \<open>v = UNMARKED\<close> c
        by (cases "unmark (rev msf) m'") (auto simp: try_center_def)
      from unmark_shape[OF u] have "same_shape m' m''" by simp
      then show ?thesis
        unfolding centers_ok_def s'
        using sq sm len cs by (auto intro: same_shape_trans)
    qed
  qed
qed

lemma find_local_maxima_ok:
  assumes "find_local_maxima cfg pixels q = Inr centers"
  shows "length centers = length pixels
    \<and> (\<forall>b < length pixels. \<forall>p \<in> set (centers ! b).
            p \<in> set (pixels ! b) \<and> window q p (infl_dist cfg b) \<noteq> [])"
proof -
  from assms obtain m where
    run: "for_each (maxima_of_bin cfg pixels) (rev [0 ..< length pixels])
            (unmarked_like q, map (\<lambda>_. []) pixels) = Inr (m, centers)"
    by (auto simp: find_local_maxima_def split: sum.splits)
  have I0: "centers_ok cfg pixels q (unmarked_like q, map (\<lambda>_. []) pixels)"
    by (cases q) (auto simp: centers_ok_def same_shape_def unmarked_like_def nrows_def ncols_def)
  have "centers_ok cfg pixels q (m, centers)"
  proof (rule for_each_inv[where I = "centers_ok cfg pixels q", OF run I0])
    fix b s s'
    assume b: "b \<in> set (rev [0 ..< length pixels])" and I: "centers_ok cfg pixels q s"
      and st: "maxima_of_bin cfg pixels b s = Inr s'"
    from b have bl: "b < length pixels" by simp
    from st have fe: "for_each (try_center b (infl_dist cfg b)) (pixels ! b) s = Inr s'"
      by (simp add: maxima_of_bin_def split: if_splits)
    show "centers_ok cfg pixels q s'"
      by (rule for_each_inv[where I = "centers_ok cfg pixels q", OF fe I])
         (rule try_center_ok[OF _ bl])
  qed
  then show ?thesis by (simp add: centers_ok_def)
qed

lemma window_empty_near_edge:
  assumes "window g p d \<noteq> []" and "0 \<le> fst p" and "0 \<le> snd p"
    and "2 * d + 1 \<le> int (nrows g)" and "2 * d + 1 \<le> int (ncols g)"
  shows "d \<le> fst p \<and> d \<le> snd p"
proof -
  from assms(1) have r: "slice_range (nrows g) (fst p - d) (fst p + d + 1) \<noteq> []"
    and c: "slice_range (ncols g) (snd p - d) (snd p + d + 1) \<noteq> []"
    by (auto simp: window_def Let_def enumerate_eq_zip)
  from r assms(2,4) have "d \<le> fst p"
    by (auto simp: slice_range_def slice_bound_def split: if_splits)
  moreover from c assms(3,5) have "d \<le> snd p"
    by (auto simp: slice_range_def slice_bound_def split: if_splits)
  ultimately show ?thesis by simp
qed

lemma good_points_iff:
  "p \<in> set (good_points data) \<Longrightarrow>
     (\<exists>r c. p = (int r, int c) \<and> r < length data \<and> c < length (data ! r) \<and> data ! r ! c \<ge> 0)"
  by (auto simp: good_points_def in_set_enumerate_eq)

lemma foldl_add_pixel:
  "length (foldl (add_pixel data) acc ps) = length acc \<and>
   (\<forall>b < length acc. foldl (add_pixel data) acc ps ! b =
      acc ! b @ filter (\<lambda>p. nat (cell data (nat (fst p), nat (snd p))) = b) ps)"
proof (induction ps arbitrary: acc)
  case Nil
  then show ?case by simp
next
  case (Cons p ps)
  show ?case
    using Cons.IH[of "add_pixel data acc p"]
    by (auto simp: add_pixel_def Let_def nth_list_update)
qed

lemma quantize_pixels_nth:
  assumes "b < length (quantize_pixels cfg data)"
  shows "quantize_pixels cfg data ! b =
     filter (\<lambda>p. nat (cell data (nat (fst p), nat (snd p))) = b) (good_points data)"
  using assms foldl_add_pixel[of data "replicate (nat (max_bin cfg + 1)) []" "good_points data"]
  by (simp add: quantize_pixels_def)

lemma length_quantize_pixels: "length (quantize_pixels cfg data) = nat (max_bin cfg + 1)"
  using foldl_add_pixel[of data "replicate (nat (max_bin cfg + 1)) []" "good_points data"]
  by (simp add: quantize_pixels_def)

lemma quantize_pixel_props:
  assumes "b < length (quantize_pixels cfg data)" and "p \<in> set (quantize_pixels cfg data ! b)"
  shows "\<exists>r c. p = (int r, int c) \<and> r < length data \<and> c < length (data ! r)
           \<and> data ! r ! c = int b"
  using assms by (auto simp: quantize_pixels_nth cell_def dest!: good_points_iff)

lemma nrows_quantize_data [simp]: "nrows (quantize_data cfg g) = nrows g"
  by (simp add: quantize_data_def nrows_def)

lemma ncols_quantize_data [simp]: "ncols (quantize_data cfg g) = ncols g"
  by (cases g) (simp_all add: quantize_data_def ncols_def)

lemma rect_quantize_data: "rect g \<Longrightarrow> rect (quantize_data cfg g)"
  unfolding rect_def ncols_quantize_data
  by (simp add: quantize_data_def list_all_iff)

text \<open>
  Claim C10. On a grid with at least \<open>2 * infl_dist + 1\<close> rows and columns, for the
  influence half-width \<open>infl_dist\<close> of a bin, no center that
  \<^verbatim>\<open>find_local_maxima\<close> returns for that bin from the output of \<^verbatim>\<open>quantize\<close>
  has a row or a column index below \<open>infl_dist\<close>: the slice of the influence square
  of such a pixel starts at a negative index, which numpy wraps to the far side, so
  the square is empty and \<open>ok\<close> stays false.
\<close>

theorem centers_clear_of_low_edges:
  assumes "find_local_maxima cfg (fst (quantize cfg g)) (snd (quantize cfg g)) = Inr centers"
    and "b < length centers" and "p \<in> set (centers ! b)"
    and "2 * infl_dist cfg b + 1 \<le> int (nrows g)"
    and "2 * infl_dist cfg b + 1 \<le> int (ncols g)"
  shows "infl_dist cfg b \<le> fst p \<and> infl_dist cfg b \<le> snd p"
proof -
  let ?q = "quantize_data cfg g" and ?px = "quantize_pixels cfg (quantize_data cfg g)"
  have fm: "find_local_maxima cfg ?px ?q = Inr centers"
    using assms(1) by (simp add: quantize_def Let_def)
  from find_local_maxima_ok[OF fm] assms(2,3)
  have b: "b < length ?px" and pin: "p \<in> set (?px ! b)"
    and w: "window ?q p (infl_dist cfg b) \<noteq> []" by auto
  from quantize_pixel_props[OF b pin] have nn: "0 \<le> fst p" "0 \<le> snd p" by auto
  show ?thesis
    by (rule window_empty_near_edge[OF w nn]) (simp_all add: assms(4,5))
qed

lemma ex_flat_centers:
  "find_local_maxima ex_cfg (fst (quantize ex_cfg ex_flat)) (snd (quantize ex_cfg ex_flat))
     = Inr [[], [(1, 1)], [], [], [], []]"
  by code_simp

theorem centers_clear_of_low_edges_witness:
  "find_local_maxima ex_cfg (fst (quantize ex_cfg ex_flat)) (snd (quantize ex_cfg ex_flat))
     = Inr [[], [(1, 1)], [], [], [], []]
   \<and> (1::nat) < length [[], [(1, 1)], [], [], [], [] :: pixel list]
   \<and> (1, 1) \<in> set ([[], [(1, 1)], [], [], [], [] :: pixel list] ! 1)
   \<and> 2 * infl_dist ex_cfg 1 + 1 \<le> int (nrows ex_flat)
   \<and> 2 * infl_dist ex_cfg 1 + 1 \<le> int (ncols ex_flat)
   \<and> infl_dist ex_cfg 1 \<le> fst ((1, 1) :: pixel) \<and> infl_dist ex_cfg 1 \<le> snd ((1, 1) :: pixel)"
proof -
  have a: "(1::nat) < length [[], [(1, 1)], [], [], [], [] :: pixel list]" by simp
  have b: "(1, 1) \<in> set ([[], [(1, 1)], [], [], [], [] :: pixel list] ! 1)" by simp
  have c: "2 * infl_dist ex_cfg 1 + 1 \<le> int (nrows ex_flat)"
    by (simp add: ex_cfg_def ex_flat_def nrows_def)
  have d: "2 * infl_dist ex_cfg 1 + 1 \<le> int (ncols ex_flat)"
    by (simp add: ex_cfg_def ex_flat_def ncols_def)
  from centers_clear_of_low_edges[OF ex_flat_centers a b c d] ex_flat_centers a b c d
  show ?thesis by simp
qed

subsection \<open>The windows at the edges\<close>

text \<open>
  Claim C5 fails on the code. For the pixel \<open>(0, 1)\<close> of a 3 by 3 grid the 3 by 3
  window that \<^verbatim>\<open>set_maximum\<close> and \<^verbatim>\<open>remove_foothills\<close> enumerate is empty, where
  the clipped window has the six cells of rows 0 and 1; a flood from that pixel on a
  flat grid therefore marks the seed alone. On a grid of one row the recomputed index
  leaves the array and \<^verbatim>\<open>label\<close> raises \<^verbatim>\<open>IndexError\<close>.
\<close>

theorem edge_window_not_clipped:
  "window ex_unmarked3 (0, 1) 1 = []
   \<and> clipped_window ex_unmarked3 (0, 1) 1 = [(0, 0), (0, 1), (0, 2), (1, 0), (1, 1), (1, 2)]
   \<and> map_option (map_sum id marked_so_far)
        (flood_loop ex_flat 0 1 1 (flood_init ex_unmarked3 (0, 1))) = Some (Inr [(0, 1)])
   \<and> label ex_cfg ex_row True = Some (Inl IndexError)"
  by code_simp

subsection \<open>Grids below the threshold\<close>











subsection \<open>What one call of set_maximum does to the label grid\<close>

lemma card_cells_of:
  assumes "distinct (map (locate g) ps)" and "\<forall>p\<in>set ps. locate g p \<noteq> None"
  shows "card (cells_of g (set ps)) = length ps"
proof -
  have "Some ` cells_of g (set ps) = set (map (locate g) ps)"
  proof (intro set_eqI iffI)
    fix x assume "x \<in> Some ` cells_of g (set ps)"
    then show "x \<in> set (map (locate g) ps)" by (force simp: cells_of_def)
  next
    fix x assume "x \<in> set (map (locate g) ps)"
    then obtain p where p: "p \<in> set ps" "x = locate g p" by auto
    with assms(2) obtain rc where "locate g p = Some rc" by auto
    then show "x \<in> Some ` cells_of g (set ps)" using p by (force simp: cells_of_def)
  qed
  moreover have "card (set (map (locate g) ps)) = length ps"
    using distinct_card[OF assms(1)] by simp
  ultimately have "card (Some ` cells_of g (set ps)) = length ps"
    by (simp only:)
  then show ?thesis by (simp add: card_image)
qed

lemma set_maximum_effect:
  assumes r0: "rect m0" and qs: "same_shape q m0" and ci: "ci \<noteq> UNMARKED"
    and gc: "good_px m0 center" and bc: "bin_px q bl center"
  shows "\<exists>r. set_maximum cfg q m0 center bl fh ci = Some r \<and>
     (case r of
        Inl e \<Rightarrow> True
      | Inr (cap, m', fh') \<Rightarrow>
          rect m' \<and> same_shape m0 m' \<and> (bl = 0 \<longrightarrow> cap) \<and>
          (\<exists>S. (\<forall>rc. inb m0 rc \<longrightarrow> cell m' rc = (if rc \<in> S then ci else cell m0 rc))
             \<and> (\<forall>rc\<in>S. inb m0 rc \<and> cell m0 rc = UNMARKED \<and> bl \<le> cell q rc)
             \<and> (S = {} \<or> min_size < int (card S) \<or> max_size cfg \<le> int (card S))
             \<and> (\<not> cap \<longrightarrow> S = {})
             \<and> (fh' = fh \<or> (max_size cfg \<le> int (card S) \<and>
                   (\<exists>gl. fh' = fh @ [(center, gl)]
                       \<and> (\<forall>p\<in>set gl. good_px m0 p \<and> glob_px q bl p))))))"
proof (cases "get_px q center")
  case (Inl e)
  then show ?thesis by (simp add: set_maximum_def)
next
  case (Inr cd)
  from flood_loop_total[OF r0 ci, of q bl cd center] obtain r where
    r: "flood_loop q bl cd ci (flood_init m0 center) = Some r"
    and rI: "case r of Inl e \<Rightarrow> True
             | Inr st \<Rightarrow> flood_inv q bl ci m0 center st \<and> as_bin st = []"
    by blast
  show ?thesis
  proof (cases r)
    case (Inl e)
    then show ?thesis using Inr r by (simp add: set_maximum_def)
  next
    case st: (Inr st)
    then have inv: "flood_inv q bl ci m0 center st" using rI by simp
    have good: "flood_good m0 st"
      using flood_loop_good[OF r0 ci qs gc] r st by simp
    let ?m = "f_marked st" and ?S = "cells_of m0 (set (marked_so_far st))"
    let ?n = "int (length (marked_so_far st))"
    from inv have rm: "rect ?m" and sm: "same_shape m0 ?m"
      and b: "\<forall>p\<in>set (marked_so_far st). \<exists>rc. locate m0 p = Some rc \<and> cell m0 rc = UNMARKED"
      and c: "distinct (map (locate m0) (marked_so_far st))"
      and d: "\<forall>rc. inb m0 rc \<longrightarrow> cell ?m rc = (if rc \<in> ?S then ci else cell m0 rc)"
      and g: "\<forall>p\<in>set (marked_so_far st). p = center \<or> bin_px q bl p"
      and f: "\<forall>p\<in>set (as_glob st). glob_px q bl p"
      by (simp_all add: flood_inv_def)
    have card: "int (card ?S) = ?n"
      using card_cells_of[OF c] b by fastforce
    have S: "\<forall>rc\<in>?S. inb m0 rc \<and> cell m0 rc = UNMARKED \<and> bl \<le> cell q rc"
    proof
      fix rc assume "rc \<in> ?S"
      then obtain p where p: "p \<in> set (marked_so_far st)" and loc: "locate m0 p = Some rc"
        by (auto simp: cells_of_def)
      from g p bc have "bin_px q bl p" by auto
      then have "bl \<le> cell q rc"
        using loc locate_same_shape[OF qs, of p]
        by (auto simp: bin_px_def get_px_def split: option.splits)
      moreover have "cell m0 rc = UNMARKED" using b p loc by fastforce
      ultimately show "inb m0 rc \<and> cell m0 rc = UNMARKED \<and> bl \<le> cell q rc"
        using locate_inb[OF loc] by simp
    qed
    have gl: "\<forall>p\<in>set (as_glob st). good_px m0 p \<and> glob_px q bl p"
      using f good by (simp add: flood_good_def)
    have sm0: "set_maximum cfg q m0 center bl fh ci
                = Some (finish_maximum cfg center bl fh st)"
      using Inr r st by (simp add: set_maximum_def)
    let ?w = "bl \<noteq> 0 \<and> will_be_considered_again st"
    consider (big) "max_size cfg \<le> ?n"
      | (rolled) "\<not> max_size cfg \<le> ?n" "?n \<le> min_size \<or> ?w"
      | (keep) "\<not> max_size cfg \<le> ?n" "\<not> (?n \<le> min_size \<or> ?w)" by blast
    then show ?thesis
    proof cases
      case big
      then have fin: "finish_maximum cfg center bl fh st
          = Inr (True, ?m, fh @ [(center, as_glob st)])"
        by (simp add: finish_maximum_cases[OF inv r0] Let_def)
      have "\<exists>S. (\<forall>rc. inb m0 rc \<longrightarrow> cell ?m rc = (if rc \<in> S then ci else cell m0 rc))
             \<and> (\<forall>rc\<in>S. inb m0 rc \<and> cell m0 rc = UNMARKED \<and> bl \<le> cell q rc)
             \<and> (S = {} \<or> min_size < int (card S) \<or> max_size cfg \<le> int (card S))
             \<and> (\<not> True \<longrightarrow> S = {})
             \<and> (fh @ [(center, as_glob st)] = fh \<or> (max_size cfg \<le> int (card S) \<and>
                   (\<exists>gl. fh @ [(center, as_glob st)] = fh @ [(center, gl)]
                       \<and> (\<forall>p\<in>set gl. good_px m0 p \<and> glob_px q bl p))))"
        by (rule exI[of _ ?S]) (use d S card big gl in simp)
      then show ?thesis unfolding sm0 fin using rm sm by simp
    next
      case rolled
      then have fin: "finish_maximum cfg center bl fh st = Inr (\<not> ?w, m0, fh)"
        by (simp add: finish_maximum_cases[OF inv r0] Let_def)
      have "\<exists>S. (\<forall>rc. inb m0 rc \<longrightarrow> cell m0 rc = (if rc \<in> S then ci else cell m0 rc))
             \<and> (\<forall>rc\<in>S. inb m0 rc \<and> cell m0 rc = UNMARKED \<and> bl \<le> cell q rc)
             \<and> (S = {} \<or> min_size < int (card S) \<or> max_size cfg \<le> int (card S))
             \<and> (\<not> \<not> ?w \<longrightarrow> S = {})
             \<and> (fh = fh \<or> (max_size cfg \<le> int (card S) \<and>
                   (\<exists>gl. fh = fh @ [(center, gl)]
                       \<and> (\<forall>p\<in>set gl. good_px m0 p \<and> glob_px q bl p))))"
        by (rule exI[of _ "{}"]) simp
      then show ?thesis unfolding sm0 fin using r0 by simp
    next
      case keep
      then have fin: "finish_maximum cfg center bl fh st = Inr (True, ?m, fh)"
        by (simp add: finish_maximum_cases[OF inv r0] Let_def)
      have "\<exists>S. (\<forall>rc. inb m0 rc \<longrightarrow> cell ?m rc = (if rc \<in> S then ci else cell m0 rc))
             \<and> (\<forall>rc\<in>S. inb m0 rc \<and> cell m0 rc = UNMARKED \<and> bl \<le> cell q rc)
             \<and> (S = {} \<or> min_size < int (card S) \<or> max_size cfg \<le> int (card S))
             \<and> (\<not> True \<longrightarrow> S = {})
             \<and> (fh = fh \<or> (max_size cfg \<le> int (card S) \<and>
                   (\<exists>gl. fh = fh @ [(center, gl)]
                       \<and> (\<forall>p\<in>set gl. good_px m0 p \<and> glob_px q bl p))))"
        by (rule exI[of _ ?S]) (use d S card keep in simp)
      then show ?thesis unfolding sm0 fin using rm sm by simp
    qed
  qed
qed

subsection \<open>The loop of remove_foothills\<close>

lemma wf_hills_rel: "wf hills_rel"
  unfolding hills_rel_def by (intro wf_inv_image wf_lex_prod wf_less_than)

lemma foothill_neighbors_sound:
  assumes "foothill_neighbors q m pt bl center centers bn ws hills = Inr hills'"
    and "good_px m pt" and "set ws \<subseteq> set (window m pt 1)" and "same_shape q m"
  shows "\<exists>new. hills' = new @ hills
           \<and> (\<forall>x\<in>set new. good_px m x \<and> glob_px q bl x \<and> is_unmarked m x)"
  using assms(1,3)
proof (induction ws arbitrary: hills)
  case Nil
  then show ?case by simp
next
  case (Cons e ws)
  obtain i j rc where e: "e = ((i, j), rc)" by (cases e) auto
  let ?px = "(i - 1 + fst pt, j - 1 + snd pt)"
  have inw: "((i, j), rc) \<in> set (window m pt 1)" and sub: "set ws \<subseteq> set (window m pt 1)"
    using Cons.prems(2) e by auto
  let ?rec = "\<lambda>h. foothill_neighbors q m pt bl center centers bn ws h"
  show ?case
  proof (cases "cell m rc = UNMARKED")
    case False
    then have "?rec hills = Inr hills'"
      using Cons.prems(1) e by (simp add: Let_def)
    from Cons.IH[OF this sub] show ?thesis .
  next
    case True
    from Cons.prems(1) e True obtain qi where qi: "get_px q ?px = Inr qi"
      by (cases "get_px q ?px") (simp_all add: Let_def)
    show ?thesis
    proof (cases "qi \<ge> 0 \<and> qi < bl")
      case False
      then have "?rec hills = Inr hills'"
        using Cons.prems(1) e True qi by (auto simp: Let_def)
      from Cons.IH[OF this sub] show ?thesis .
    next
      case lvl: True
      from Cons.prems(1) e True qi lvl obtain qp where qp: "get_px q pt = Inr qp"
        by (cases "get_px q pt") (simp_all add: Let_def)
      show ?thesis
      proof (cases "qi \<le> qp \<or> is_closest ?px center centers bn")
        case False
        then have "?rec hills = Inr hills'"
          using Cons.prems(1) e True qi lvl qp by (auto simp: Let_def)
        from Cons.IH[OF this sub] show ?thesis .
      next
        case push: True
        then have "?rec (?px # hills) = Inr hills'"
          using Cons.prems(1) e True qi lvl qp by (auto simp: Let_def)
        from Cons.IH[OF this sub] obtain new where
          new: "hills' = new @ ?px # hills"
          and all: "\<forall>x\<in>set new. good_px m x \<and> glob_px q bl x \<and> is_unmarked m x"
          by blast
        from qi obtain rc' where loc: "locate m ?px = Some rc'"
          using locate_same_shape[OF assms(4), of ?px] by (auto simp: get_px_Inr)
        from window_consistent[OF assms(2) inw loc]
        have rc': "rc' = rc" and good: "good_px m ?px" by simp_all
        have um: "is_unmarked m ?px"
          using loc rc' True by (simp add: is_unmarked_def get_px_def)
        have gp: "glob_px q bl ?px" using qi lvl by (simp add: glob_px_def)
        have "hills' = (new @ [?px]) @ hills" using new by simp
        moreover have "\<forall>x\<in>set (new @ [?px]). good_px m x \<and> glob_px q bl x \<and> is_unmarked m x"
          using all good gp um by simp
        ultimately show ?thesis by blast
      qed
    qed
  qed
qed

lemma hills_step_inv:
  assumes inv: "hills_inv q bl m0 s" and ne: "snd s \<noteq> []"
    and step: "hills_step q bl center centers bn s = Inr s'"
    and qs: "same_shape q m0"
  shows "hills_inv q bl m0 s' \<and> (s', s) \<in> hills_rel"
proof -
  obtain m hs where s: "s = (m, hs)" by (cases s)
  obtain pt rest where hs: "hs = pt # rest" using ne s by (cases hs) auto
  from inv s have rm: "rect m" and sm: "same_shape m0 m"
    and hp: "\<forall>p\<in>set hs. good_px m0 p \<and> glob_px q bl p"
    and d: "\<forall>rc. inb m0 rc \<longrightarrow> cell m rc = cell m0 rc
              \<or> (cell m rc = GLOBBED \<and> 0 \<le> cell q rc \<and> cell q rc < bl)"
    by (simp_all add: hills_inv_def)
  from step s hs obtain m' where put: "put_px m pt GLOBBED = Inr m'"
    by (cases "put_px m pt GLOBBED") (simp_all add: hills_step_def)
  then obtain rc where loc: "locate m pt = Some rc" and m': "m' = set_cell m rc GLOBBED"
    by (auto simp: put_px_Inr)
  have inbm: "inb m rc" using loc by (rule locate_inb)
  from step s hs put obtain hs' where
    fn: "foothill_neighbors q m' pt bl center centers bn (window m' pt 1) rest = Inr hs'"
    and s': "s' = (m', hs')"
    by (auto simp: hills_step_def split: sum.splits)
  have sm': "same_shape m0 m'" using sm by (simp add: m' same_shape_def)
  have mm': "same_shape m m'" by (simp add: m')
  have rm': "rect m'" using rm by (simp add: m' rect_set_cell)
  have gs: "\<And>x. good_px m' x = good_px m0 x"
    by (simp add: good_px_same_shape[OF sm'])
  have gpt: "good_px m' pt" using hp hs gs by simp
  have qm': "same_shape q m'" using qs sm' by (rule same_shape_trans)
  from foothill_neighbors_sound[OF fn gpt subset_refl qm'] obtain new where
    new: "hs' = new @ rest"
    and all: "\<forall>x\<in>set new. good_px m' x \<and> glob_px q bl x \<and> is_unmarked m' x"
    by blast
  have lq: "locate q pt = Some rc"
    using loc locate_same_shape[OF qs] locate_same_shape[OF sm] by simp
  have qrc: "0 \<le> cell q rc \<and> cell q rc < bl"
    using hp hs lq by (auto simp: glob_px_def get_px_def)
  have d': "\<forall>rc'. inb m0 rc' \<longrightarrow> cell m' rc' = cell m0 rc'
              \<or> (cell m' rc' = GLOBBED \<and> 0 \<le> cell q rc' \<and> cell q rc' < bl)"
  proof (intro allI impI)
    fix rc' assume "inb m0 rc'"
    with d have "cell m rc' = cell m0 rc'
              \<or> (cell m rc' = GLOBBED \<and> 0 \<le> cell q rc' \<and> cell q rc' < bl)" by blast
    then show "cell m' rc' = cell m0 rc'
              \<or> (cell m' rc' = GLOBBED \<and> 0 \<le> cell q rc' \<and> cell q rc' < bl)"
      using qrc by (auto simp: m' cell_set_cell[OF rm inbm])
  qed
  have hp': "\<forall>p\<in>set hs'. good_px m0 p \<and> glob_px q bl p"
    using hp hs new all gs by auto
  have inv': "hills_inv q bl m0 s'"
    unfolding hills_inv_def s' using rm' sm' hp' d' by simp
  have gu: "GLOBBED \<noteq> UNMARKED" by (simp add: GLOBBED_def UNMARKED_def)
  have rel: "(s', s) \<in> hills_rel"
  proof (cases "cell m rc = UNMARKED")
    case True
    from card_unmarked_cells_set_cell[OF rm inbm gu True]
    show ?thesis by (simp add: hills_rel_def s s' m')
  next
    case False
    have U: "unmarked_cells m' = unmarked_cells m"
      using unmarked_cells_set_cell[OF rm inbm gu] False
      by (auto simp: m' unmarked_cells_def)
    have iu: "\<And>p. is_unmarked m' p = is_unmarked m p"
    proof -
      fix p
      show "is_unmarked m' p = is_unmarked m p"
        using False gu locate_same_shape[OF mm', of p]
        by (auto simp: is_unmarked_def get_px_def m' cell_set_cell[OF rm inbm]
            split: option.splits)
    qed
    have npt: "\<not> is_unmarked m pt"
      using loc False by (simp add: is_unmarked_def get_px_def)
    have fnew: "filter (\<lambda>p. \<not> is_unmarked m' p) new = []"
      using all by (simp add: filter_empty_conv)
    have "length (filter (\<lambda>p. \<not> is_unmarked m' p) hs')
            < length (filter (\<lambda>p. \<not> is_unmarked m p) hs)"
      using fnew npt by (simp add: new hs iu)
    then show ?thesis by (simp add: hills_rel_def s s' U)
  qed
  from inv' rel show ?thesis by simp
qed

lemma hills_loop_total:
  assumes r0: "rect m0" and qs: "same_shape q m0"
    and gl: "\<forall>p\<in>set hs. good_px m0 p \<and> glob_px q bl p"
  shows "\<exists>r. hills_loop q bl center centers bn (m0, hs) = Some r \<and>
           (case r of Inl e \<Rightarrow> True | Inr s \<Rightarrow> hills_inv q bl m0 s \<and> snd s = [])"
proof -
  have I0: "hills_inv q bl m0 (m0, hs)"
    using r0 gl by (simp add: hills_inv_def)
  have "\<exists>r. while_loop (\<lambda>s. snd s \<noteq> []) (hills_step q bl center centers bn) (m0, hs) = Some r \<and>
            (case r of Inl e \<Rightarrow> (\<exists>t. hills_inv q bl m0 t \<and> snd t \<noteq> []
                                    \<and> hills_step q bl center centers bn t = Inl e)
             | Inr s' \<Rightarrow> hills_inv q bl m0 s' \<and> \<not> snd s' \<noteq> [])"
    by (rule while_loop_total[OF wf_hills_rel, where I = "hills_inv q bl m0", OF I0])
       (rule hills_step_inv[OF _ _ _ qs])
  then show ?thesis
    by (auto simp: hills_loop_def split: sum.splits)
qed

lemma remove_foothills_effect:
  assumes "rect m" and "same_shape q m"
    and "\<forall>f\<in>set fhs. \<forall>p\<in>set (snd f). good_px m p \<and> glob_px q bl p"
  shows "\<exists>r. remove_foothills q m bn bl centers fhs = Some r \<and>
     (case r of
        Inl e \<Rightarrow> True
      | Inr m' \<Rightarrow> rect m' \<and> same_shape m m'
          \<and> (\<forall>rc. inb m rc \<longrightarrow> cell m' rc = cell m rc
                \<or> (cell m' rc = GLOBBED \<and> 0 \<le> cell q rc \<and> cell q rc < bl)))"
  using assms
proof (induction fhs arbitrary: m)
  case Nil
  then show ?case by simp
next
  case (Cons foot fhs)
  have gl: "\<forall>p\<in>set (snd foot). good_px m p \<and> glob_px q bl p" using Cons.prems(3) by simp
  from hills_loop_total[OF Cons.prems(1,2) gl, of "fst foot" centers bn] obtain r where
    r: "hills_loop q bl (fst foot) centers bn (m, snd foot) = Some r"
    and rI: "case r of Inl e \<Rightarrow> True | Inr s \<Rightarrow> hills_inv q bl m s \<and> snd s = []"
    by blast
  show ?case
  proof (cases r)
    case (Inl e)
    then show ?thesis using r by simp
  next
    case (Inr s)
    then have inv: "hills_inv q bl m s" using rI by simp
    then have r1: "rect (fst s)" and s1: "same_shape m (fst s)"
      and d: "\<forall>rc. inb m rc \<longrightarrow> cell (fst s) rc = cell m rc
                \<or> (cell (fst s) rc = GLOBBED \<and> 0 \<le> cell q rc \<and> cell q rc < bl)"
      by (simp_all add: hills_inv_def)
    have q1: "same_shape q (fst s)" using Cons.prems(2) s1 by (rule same_shape_trans)
    have g1: "\<forall>f\<in>set fhs. \<forall>p\<in>set (snd f). good_px (fst s) p \<and> glob_px q bl p"
      using Cons.prems(3) good_px_same_shape[OF s1] by simp
    from Cons.IH[OF r1 q1 g1] obtain r2 where
      r2: "remove_foothills q (fst s) bn bl centers fhs = Some r2"
      and r2I: "case r2 of Inl e \<Rightarrow> True
        | Inr m' \<Rightarrow> rect m' \<and> same_shape (fst s) m'
          \<and> (\<forall>rc. inb (fst s) rc \<longrightarrow> cell m' rc = cell (fst s) rc
                \<or> (cell m' rc = GLOBBED \<and> 0 \<le> cell q rc \<and> cell q rc < bl))"
      by blast
    have eq: "remove_foothills q m bn bl centers (foot # fhs) = Some r2"
      using r Inr r2 by simp
    show ?thesis
    proof (cases r2)
      case (Inl e)
      then show ?thesis using eq by simp
    next
      case m': (Inr m')
      from r2I m' have rm': "rect m'" and sm': "same_shape (fst s) m'"
        and d2: "\<forall>rc. inb (fst s) rc \<longrightarrow> cell m' rc = cell (fst s) rc
                \<or> (cell m' rc = GLOBBED \<and> 0 \<le> cell q rc \<and> cell q rc < bl)"
        by simp_all
      have "\<forall>rc. inb m rc \<longrightarrow> cell m' rc = cell m rc
                \<or> (cell m' rc = GLOBBED \<and> 0 \<le> cell q rc \<and> cell q rc < bl)"
      proof (intro allI impI)
        fix rc assume i: "inb m rc"
        then have "inb (fst s) rc" using inb_same_shape[OF s1] by simp
        with d2 d i show "cell m' rc = cell m rc
                \<or> (cell m' rc = GLOBBED \<and> 0 \<le> cell q rc \<and> cell q rc < bl)"
          by metis
      qed
      then show ?thesis using eq m' rm' same_shape_trans[OF s1 sm'] by simp
    qed
  qed
qed

subsection \<open>The invariant of grow_centers\<close>

lemma committed_keptI:
  assumes "rect m" and "rect m'" and "same_shape m m'"
    and "\<And>rc. inb m rc \<Longrightarrow> committed (cell m rc) \<Longrightarrow> cell m' rc = cell m rc"
  shows "committed_kept m m'"
  unfolding committed_kept_def list_all2_conv_all_nth
proof (intro conjI allI impI)
  show len: "length m = length m'" using assms(3) by (simp add: same_shape_def nrows_def)
  fix r assume r: "r < length m"
  show "length (m ! r) = length (m' ! r)"
    using assms(1,2,3) r len by (simp add: rect_row same_shape_def nrows_def)
  fix c assume c: "c < length (m ! r)" and cm: "committed (m ! r ! c)"
  have "inb m (r, c)" using r c assms(1) by (simp add: inb_def nrows_def rect_row)
  from assms(4)[OF this] cm show "m' ! r ! c = m ! r ! c" by (simp add: cell_def)
qed

lemma committed_keptD:
  assumes "committed_kept m m'" and "fst rc < length m" and "snd rc < length (m ! fst rc)"
    and "committed (cell m rc)"
  shows "cell m' rc = cell m rc"
  using assms unfolding committed_kept_def list_all2_conv_all_nth cell_def by auto

lemma committed_kept_trans:
  assumes "committed_kept a b" and "committed_kept b c"
  shows "committed_kept a c"
  using assms unfolding committed_kept_def
  by (rule list_all2_trans[rotated]) (erule (1) list_all2_trans[rotated], auto)

lemma sorted_wrt_snoc:
  assumes tr: "\<And>a b c. P a b \<Longrightarrow> P b c \<Longrightarrow> P a c"
    and "sorted_wrt P xs" and "xs \<noteq> []" and "P (last xs) y"
  shows "sorted_wrt P (xs @ [y])"
proof -
  have "\<forall>x\<in>set xs. P x y"
  proof
    fix x assume x: "x \<in> set xs"
    have xs: "xs = butlast xs @ [last xs]" using assms(3) by simp
    then have "sorted_wrt P (butlast xs @ [last xs])" using assms(2) by simp
    then have bl: "\<forall>z\<in>set (butlast xs). P z (last xs)" by (simp add: sorted_wrt_append)
    from x xs have "x = last xs \<or> x \<in> set (butlast xs)"
      by (metis Un_iff empty_iff empty_set set_ConsD set_append)
    then show "P x y" using bl assms(4) tr by blast
  qed
  then show ?thesis using assms(2) by (simp add: sorted_wrt_append)
qed

lemma card_label_cells:
  assumes "rect m"
  shows "card (label_cells m l) = object_size m l"
proof -
  let ?B = "\<lambda>r. {c. c < length (m ! r) \<and> l = m ! r ! c}"
  have set: "label_cells m l = (SIGMA r:{..<length m}. ?B r)"
    using assms by (auto simp: label_cells_def inb_def cell_def nrows_def rect_row)
  have "card (SIGMA r:{..<length m}. ?B r) = (\<Sum>r\<in>{..<length m}. card (?B r))"
    by (rule card_SigmaI) auto
  also have "\<dots> = (\<Sum>r\<in>{..<length m}. length (filter ((=) l) (m ! r)))"
    by (simp add: length_filter_conv_card)
  also have "\<dots> = sum_list (map (\<lambda>row. length (filter ((=) l) row)) m)"
    by (simp add: sum_list_sum_nth atLeast0LessThan)
  also have "\<dots> = length (filter ((=) l) (concat m))"
    by (simp add: filter_concat length_concat comp_def)
  finally show ?thesis
    by (simp add: set object_size_def count_list_eq_length_filter)
qed

lemma hist_ok_snoc:
  assumes h: "hist_ok q hs m" and v: "vals_ok q ci m" and v': "vals_ok q ci' m'"
    and keep: "\<And>rc. inb m rc \<Longrightarrow> committed (cell m rc) \<Longrightarrow> cell m' rc = cell m rc"
  shows "hist_ok q (hs @ [m']) m'"
proof -
  from v have rm: "rect m" and qm: "same_shape q m" by (simp_all add: vals_ok_def)
  from v' have rm': "rect m'" and qm': "same_shape q m'"
    and vals: "\<forall>rc. inb q rc \<longrightarrow>
            cell m' rc = UNMARKED \<or> cell m' rc = GLOBBED \<or> (1 \<le> cell m' rc \<and> cell m' rc < ci')"
    by (simp_all add: vals_ok_def)
  have mm': "same_shape m m'" using qm qm' by (simp add: same_shape_def)
  have ck: "committed_kept m m'" by (rule committed_keptI[OF rm rm' mm']) (rule keep)
  from h have ne: "hs \<noteq> []" and hd: "hd hs = unmarked_like q"
    and la: "last hs = m" and so: "sorted_wrt committed_kept hs"
    and al: "\<forall>h\<in>set hs. rect h \<and> same_shape q h \<and> (\<forall>rc. inb q rc \<longrightarrow> cell h rc \<noteq> TOOSMALL)"
    by (simp_all add: hist_ok_def)
  have "sorted_wrt committed_kept (hs @ [m'])"
    by (rule sorted_wrt_snoc[OF committed_kept_trans so ne]) (simp_all add: la ck)
  moreover have "\<forall>rc. inb q rc \<longrightarrow> cell m' rc \<noteq> TOOSMALL"
  proof (intro allI impI)
    fix rc assume "inb q rc"
    from vals[rule_format, OF this] show "cell m' rc \<noteq> TOOSMALL"
      by (auto simp: TOOSMALL_def UNMARKED_def GLOBBED_def)
  qed
  ultimately show ?thesis using al rm' qm' ne hd by (simp add: hist_ok_def)
qed

lemma flood_transition:
  assumes v: "vals_ok q ci m" and lv: "levels_ok q L m" and sz: "sizes_ok cfg m"
    and h: "hist_ok q hs m" and ci: "1 \<le> ci"
    and rm': "rect m'" and sm': "same_shape m m'"
    and eff: "\<forall>rc. inb m rc \<longrightarrow> cell m' rc = (if rc \<in> S then ci else cell m rc)"
    and S: "\<forall>rc\<in>S. inb m rc \<and> cell m rc = UNMARKED \<and> L \<le> cell q rc"
    and size: "S = {} \<or> min_size < int (card S) \<or> max_size cfg \<le> int (card S)"
  shows "vals_ok q (ci + 1) m'" and "S = {} \<Longrightarrow> vals_ok q ci m'" and "levels_ok q L m'"
    and "sizes_ok cfg m'" and "hist_ok q (hs @ [m']) m'"
proof -
  from v have rm: "rect m" and qm: "same_shape q m"
    and vals: "\<forall>rc. inb q rc \<longrightarrow>
            cell m rc = UNMARKED \<or> cell m rc = GLOBBED \<or> (1 \<le> cell m rc \<and> cell m rc < ci)"
    by (simp_all add: vals_ok_def)
  have qm': "same_shape q m'" using qm sm' by (rule same_shape_trans)
  have iq: "\<And>rc. inb q rc = inb m rc" using inb_same_shape[OF qm] by simp
  have im: "\<And>rc. inb m' rc = inb m rc" using inb_same_shape[OF sm'] by simp
  have un: "UNMARKED < 0" "GLOBBED < 0" by (simp_all add: UNMARKED_def GLOBBED_def)
  show v1: "vals_ok q (ci + 1) m'"
    unfolding vals_ok_def
  proof (intro conjI allI impI)
    fix rc assume "inb q rc"
    then have i: "inb m rc" using iq by simp
    from vals[rule_format, OF \<open>inb q rc\<close>] eff[rule_format, OF i] ci
    show "cell m' rc = UNMARKED \<or> cell m' rc = GLOBBED \<or> (1 \<le> cell m' rc \<and> cell m' rc < ci + 1)"
      by (cases "rc \<in> S") auto
  qed (rule rm', rule qm')
  show v0: "vals_ok q ci m'" if "S = {}"
    unfolding vals_ok_def
  proof (intro conjI allI impI)
    fix rc assume "inb q rc"
    then have i: "inb m rc" using iq by simp
    from vals[rule_format, OF \<open>inb q rc\<close>] eff[rule_format, OF i] that
    show "cell m' rc = UNMARKED \<or> cell m' rc = GLOBBED \<or> (1 \<le> cell m' rc \<and> cell m' rc < ci)"
      by simp
  qed (rule rm', rule qm')
  show "levels_ok q L m'"
    unfolding levels_ok_def
  proof (intro allI impI)
    fix rc assume "inb q rc" and pos: "0 < cell m' rc"
    then have i: "inb m rc" using iq by simp
    show "L \<le> cell q rc"
    proof (cases "rc \<in> S")
      case True
      then show ?thesis using S by simp
    next
      case False
      then have "cell m' rc = cell m rc" using eff[rule_format, OF i] by simp
      then show ?thesis
        using lv[unfolded levels_ok_def, rule_format, OF \<open>inb q rc\<close>] pos by simp
    qed
  qed
  have lc: "label_cells m' l = (if l = ci then S else label_cells m l)" if l: "0 < l" for l
  proof (cases "l = ci")
    case True
    have old: "label_cells m ci = {}"
    proof (rule ccontr)
      assume "label_cells m ci \<noteq> {}"
      then obtain rc where i: "inb m rc" and c: "cell m rc = ci"
        by (auto simp: label_cells_def)
      from vals[rule_format, of rc] i iq c un ci show False by auto
    qed
    have "label_cells m' ci = S"
    proof (intro set_eqI iffI)
      fix rc assume "rc \<in> label_cells m' ci"
      then have i: "inb m rc" and c: "cell m' rc = ci" using im by (simp_all add: label_cells_def)
      show "rc \<in> S"
      proof (rule ccontr)
        assume "rc \<notin> S"
        then have "cell m rc = ci" using eff[rule_format, OF i] c by simp
        then have "rc \<in> label_cells m ci" using i by (simp add: label_cells_def)
        then show False using old by simp
      qed
    next
      fix rc assume rc: "rc \<in> S"
      then have i: "inb m rc" using S by blast
      then show "rc \<in> label_cells m' ci"
        using eff[rule_format, OF i] rc im by (simp add: label_cells_def)
    qed
    then show ?thesis using True by simp
  next
    case False
    have "label_cells m' l = label_cells m l"
    proof (intro set_eqI iffI)
      fix rc assume "rc \<in> label_cells m' l"
      then have i: "inb m rc" and c: "cell m' rc = l" using im by (simp_all add: label_cells_def)
      then have ns: "rc \<notin> S" using eff[rule_format, OF i] False by auto
      then show "rc \<in> label_cells m l"
        using eff[rule_format, OF i] i c by (simp add: label_cells_def)
    next
      fix rc assume "rc \<in> label_cells m l"
      then have i: "inb m rc" and c: "cell m rc = l" by (simp_all add: label_cells_def)
      then have "rc \<notin> S" using S l un by auto
      then show "rc \<in> label_cells m' l"
        using eff[rule_format, OF i] i c im by (simp add: label_cells_def)
    qed
    then show ?thesis using False by simp
  qed
  show "sizes_ok cfg m'"
    unfolding sizes_ok_def
  proof (intro allI impI)
    fix l :: int assume l: "0 < l"
    show "label_cells m' l = {} \<or> min_size < int (card (label_cells m' l))
          \<or> max_size cfg \<le> int (card (label_cells m' l))"
      using lc[OF l] size sz[unfolded sizes_ok_def, rule_format, OF l] by (cases "l = ci") simp_all
  qed
  show "hist_ok q (hs @ [m']) m'"
  proof (rule hist_ok_snoc[OF h v v1])
    fix rc assume i: "inb m rc" and c: "committed (cell m rc)"
    then have "cell m rc \<noteq> UNMARKED" by (auto simp: committed_def UNMARKED_def GLOBBED_def)
    then have "rc \<notin> S" using S by auto
    then show "cell m' rc = cell m rc" using eff[rule_format, OF i] by simp
  qed
qed

lemma glob_transition:
  assumes v: "vals_ok q ci m" and lv: "levels_ok q L m" and sz: "sizes_ok cfg m"
    and h: "hist_ok q hs m" and rm': "rect m'" and sm': "same_shape m m'"
    and eff: "\<forall>rc. inb m rc \<longrightarrow> cell m' rc = cell m rc
                \<or> (cell m' rc = GLOBBED \<and> 0 \<le> cell q rc \<and> cell q rc < bl)"
    and bl: "bl \<le> L"
  shows "vals_ok q ci m'" and "levels_ok q L m'" and "sizes_ok cfg m'"
    and "hist_ok q (hs @ [m']) m'"
proof -
  from v have rm: "rect m" and qm: "same_shape q m"
    and vals: "\<forall>rc. inb q rc \<longrightarrow>
            cell m rc = UNMARKED \<or> cell m rc = GLOBBED \<or> (1 \<le> cell m rc \<and> cell m rc < ci)"
    by (simp_all add: vals_ok_def)
  have qm': "same_shape q m'" using qm sm' by (rule same_shape_trans)
  have iq: "\<And>rc. inb q rc = inb m rc" using inb_same_shape[OF qm] by simp
  have im: "\<And>rc. inb m' rc = inb m rc" using inb_same_shape[OF sm'] by simp
  have gl: "GLOBBED < 0" by (simp add: GLOBBED_def)
  have pos: "cell m' rc = cell m rc" if "inb m rc" "0 < cell m rc" for rc
  proof -
    have "L \<le> cell q rc"
      using lv[unfolded levels_ok_def, rule_format, of rc] that iq by simp
    then show ?thesis using eff[rule_format, OF that(1)] bl by auto
  qed
  have pos': "cell m' rc = cell m rc" if "inb m rc" "0 < cell m' rc" for rc
    using eff[rule_format, OF that(1)] that(2) gl by auto
  show v1: "vals_ok q ci m'"
    unfolding vals_ok_def
  proof (intro conjI allI impI)
    fix rc assume "inb q rc"
    then have i: "inb m rc" using iq by simp
    from vals[rule_format, OF \<open>inb q rc\<close>] eff[rule_format, OF i]
    show "cell m' rc = UNMARKED \<or> cell m' rc = GLOBBED \<or> (1 \<le> cell m' rc \<and> cell m' rc < ci)"
      by auto
  qed (rule rm', rule qm')
  show "levels_ok q L m'"
    unfolding levels_ok_def
  proof (intro allI impI)
    fix rc assume i: "inb q rc" and p: "0 < cell m' rc"
    then have "cell m' rc = cell m rc" using pos'[of rc] iq by simp
    then show "L \<le> cell q rc"
      using lv[unfolded levels_ok_def, rule_format, OF i] p by simp
  qed
  have lc: "label_cells m' l = label_cells m l" if l: "0 < l" for l
  proof (intro set_eqI iffI)
    fix rc assume "rc \<in> label_cells m' l"
    then have i: "inb m rc" and c: "cell m' rc = l" using im by (simp_all add: label_cells_def)
    then show "rc \<in> label_cells m l" using pos'[of rc] l by (simp add: label_cells_def)
  next
    fix rc assume "rc \<in> label_cells m l"
    then have i: "inb m rc" and c: "cell m rc = l" by (simp_all add: label_cells_def)
    then show "rc \<in> label_cells m' l" using pos[of rc] l im by (simp add: label_cells_def)
  qed
  show "sizes_ok cfg m'"
    using sz lc by (simp add: sizes_ok_def)
  show "hist_ok q (hs @ [m']) m'"
  proof (rule hist_ok_snoc[OF h v v1])
    fix rc assume i: "inb m rc" and c: "committed (cell m rc)"
    then show "cell m' rc = cell m rc"
      using eff[rule_format, OF i] pos[OF i] by (auto simp: committed_def)
  qed
qed

lemma seed_px_locate:
  assumes "seed_px q k p" and "same_shape q m"
  shows "locate m p = Some (nat (fst p), nat (snd p))" and "good_px m p"
    and "inb q (nat (fst p), nat (snd p))"
  using assms
  by (auto simp: seed_px_def locate_def norm_index_def good_px_def good_coord_def
      same_shape_def inb_def)

lemma seed_px_bin:
  assumes "seed_px q k p" and "bl \<le> int k"
  shows "bin_px q bl p"
  using seed_px_locate(1)[OF assms(1) same_shape_refl] assms
  by (simp add: bin_px_def get_px_def seed_px_def)

lemma seed_px_mono: "seed_px q (Suc k) p \<Longrightarrow> seed_px q k p"
  by (simp add: seed_px_def)

lemma fh_ok_clamp: "fh_ok q bl fhs \<Longrightarrow> fh_ok q (max 0 bl) fhs"
  by (cases "0 \<le> bl") (auto simp: fh_ok_def max_def)

lemma grow_seed_inv:
  assumes inv: "grow_inv cfg q g" and seed: "seed_px q k center"
    and lvl: "max 0 (bin_lower g) \<le> int k"
  shows "\<exists>r. grow_seed cfg q center g = Some r \<and>
     (case r of
        Inl e \<Rightarrow> True
      | Inr g' \<Rightarrow> grow_inv cfg q g' \<and> bin_lower g' = max 0 (bin_lower g)
          \<and> (deferred_to_next g' = deferred_to_next g
              \<or> (deferred_to_next g' = deferred_to_next g @ [center] \<and> bin_lower g' \<noteq> 0)))"
proof -
  let ?m = "g_marked g" and ?ci = "capture_index g" and ?bl = "max 0 (bin_lower g)"
  have blc: "(if bin_lower g < 0 then 0 else bin_lower g) = ?bl" by (simp add: max_def)
  from inv have ci: "1 \<le> ?ci" and v: "vals_ok q ?ci ?m"
    and lv: "levels_ok q ?bl ?m" and sz: "sizes_ok cfg ?m"
    and fh: "fh_ok q (bin_lower g) (foothills g)" and h: "hist_ok q (history g) ?m"
    by (simp_all add: grow_inv_def)
  from v have rm: "rect ?m" and qm: "same_shape q ?m" by (simp_all add: vals_ok_def)
  have fhc: "fh_ok q ?bl (foothills g)" using fh by (rule fh_ok_clamp)
  have mx: "max 0 ?bl = ?bl" by simp
  have loc: "locate ?m center = Some (nat (fst center), nat (snd center))"
    and gc: "good_px ?m center"
    using seed_px_locate[OF seed qm] by simp_all
  obtain v0 where v0: "get_px ?m center = Inr v0" using loc by (simp add: get_px_def)
  show ?thesis
  proof (cases "v0 = UNMARKED")
    case False
    then have gs: "grow_seed cfg q center g = Some (Inr (g\<lparr>bin_lower := ?bl\<rparr>))"
      using v0 by (simp add: grow_seed_def blc Let_def)
    have "grow_inv cfg q (g\<lparr>bin_lower := ?bl\<rparr>)"
      using ci v lv sz fhc h by (simp add: grow_inv_def)
    then show ?thesis using gs by simp
  next
    case True
    have cu: "?ci \<noteq> UNMARKED" using ci by (simp add: UNMARKED_def)
    have bc: "bin_px q ?bl center" using seed lvl by (rule seed_px_bin)
    from set_maximum_effect[OF rm qm cu gc bc, of cfg "foothills g"] obtain r where
      r: "set_maximum cfg q ?m center ?bl (foothills g) ?ci = Some r"
      and rI: "case r of
        Inl e \<Rightarrow> True
      | Inr (cap, m', fh') \<Rightarrow>
          rect m' \<and> same_shape ?m m' \<and> (?bl = 0 \<longrightarrow> cap) \<and>
          (\<exists>S. (\<forall>rc. inb ?m rc \<longrightarrow> cell m' rc = (if rc \<in> S then ?ci else cell ?m rc))
             \<and> (\<forall>rc\<in>S. inb ?m rc \<and> cell ?m rc = UNMARKED \<and> ?bl \<le> cell q rc)
             \<and> (S = {} \<or> min_size < int (card S) \<or> max_size cfg \<le> int (card S))
             \<and> (\<not> cap \<longrightarrow> S = {})
             \<and> (fh' = foothills g \<or> (max_size cfg \<le> int (card S) \<and>
                   (\<exists>gl. fh' = foothills g @ [(center, gl)]
                       \<and> (\<forall>p\<in>set gl. good_px ?m p \<and> glob_px q ?bl p)))))"
      by blast
    show ?thesis
    proof (cases r)
      case (Inl e)
      then show ?thesis using r v0 True by (simp add: grow_seed_def blc Let_def)
    next
      case (Inr res)
      obtain cap m' fh' where res: "res = (cap, m', fh')" by (cases res)
      from rI Inr res obtain S where rm': "rect m'" and sm': "same_shape ?m m'"
        and b0: "?bl = 0 \<longrightarrow> cap"
        and eff: "\<forall>rc. inb ?m rc \<longrightarrow> cell m' rc = (if rc \<in> S then ?ci else cell ?m rc)"
        and S: "\<forall>rc\<in>S. inb ?m rc \<and> cell ?m rc = UNMARKED \<and> ?bl \<le> cell q rc"
        and size: "S = {} \<or> min_size < int (card S) \<or> max_size cfg \<le> int (card S)"
        and nc: "\<not> cap \<longrightarrow> S = {}"
        and fh': "fh' = foothills g \<or> (max_size cfg \<le> int (card S) \<and>
                   (\<exists>gl. fh' = foothills g @ [(center, gl)]
                       \<and> (\<forall>p\<in>set gl. good_px ?m p \<and> glob_px q ?bl p)))"
        by auto
      note ft = flood_transition[OF v lv sz h ci rm' sm' eff S size]
      have fhn: "fh_ok q ?bl fh'"
        using fh' fhc good_px_same_shape[OF qm] by (auto simp: fh_ok_def)
      show ?thesis
      proof (cases cap)
        case True
        let ?g' = "g\<lparr>g_marked := m', foothills := fh', bin_lower := ?bl,
                     capture_index := ?ci + 1, history := history g @ [m']\<rparr>"
        have gs: "grow_seed cfg q center g = Some (Inr ?g')"
          using r Inr res v0 \<open>v0 = UNMARKED\<close> True by (simp add: grow_seed_def blc Let_def)
        have "grow_inv cfg q ?g'"
          using ci ft(1,3,4,5) fhn by (simp add: grow_inv_def)
        then show ?thesis using gs by simp
      next
        case False
        let ?g' = "g\<lparr>g_marked := m', foothills := fh', bin_lower := ?bl,
                     deferred_to_next := deferred_to_next g @ [center],
                     history := history g @ [m']\<rparr>"
        have gs: "grow_seed cfg q center g = Some (Inr ?g')"
          using r Inr res v0 \<open>v0 = UNMARKED\<close> False by (simp add: grow_seed_def blc Let_def)
        have "S = {}" using nc False by simp
        then have "grow_inv cfg q ?g'"
          using ci ft(2,3,4,5) fhn by (simp add: grow_inv_def)
        moreover have "?bl \<noteq> 0" using b0 False by auto
        ultimately show ?thesis using gs by simp
      qed
    qed
  qed
qed

lemma levels_ok_mono: "levels_ok q L m \<Longrightarrow> L' \<le> L \<Longrightarrow> levels_ok q L' m"
  unfolding levels_ok_def by (meson order_trans)

lemma grow_seeds_inv:
  assumes "grow_inv cfg q g" and "\<forall>p\<in>set seeds. seed_px q b p"
    and "max 0 (bin_lower g) \<le> int b"
  shows "\<exists>r. for_each_opt (grow_seed cfg q) seeds g = Some r \<and>
     (case r of
        Inl e \<Rightarrow> True
      | Inr g' \<Rightarrow> grow_inv cfg q g'
          \<and> max 0 (bin_lower g') = max 0 (bin_lower g)
          \<and> set (deferred_to_next g') \<subseteq> set (deferred_to_next g) \<union> set seeds
          \<and> (max 0 (bin_lower g) = 0 \<longrightarrow> deferred_to_next g' = deferred_to_next g))"
  using assms
proof (induction seeds arbitrary: g)
  case Nil
  then show ?case by simp
next
  case (Cons c seeds)
  have sc: "seed_px q b c" using Cons.prems(2) by simp
  from grow_seed_inv[OF Cons.prems(1) sc Cons.prems(3)] obtain r where
    r: "grow_seed cfg q c g = Some r"
    and rI: "case r of
        Inl e \<Rightarrow> True
      | Inr g' \<Rightarrow> grow_inv cfg q g' \<and> bin_lower g' = max 0 (bin_lower g)
          \<and> (deferred_to_next g' = deferred_to_next g
              \<or> (deferred_to_next g' = deferred_to_next g @ [c] \<and> bin_lower g' \<noteq> 0))"
    by blast
  show ?case
  proof (cases r)
    case (Inl e)
    then show ?thesis using r by simp
  next
    case (Inr g1)
    from rI Inr have i1: "grow_inv cfg q g1" and b1: "bin_lower g1 = max 0 (bin_lower g)"
      and d1: "deferred_to_next g1 = deferred_to_next g
              \<or> (deferred_to_next g1 = deferred_to_next g @ [c] \<and> bin_lower g1 \<noteq> 0)"
      by auto
    have m1: "max 0 (bin_lower g1) = max 0 (bin_lower g)" using b1 by simp
    have s1: "\<forall>p\<in>set seeds. seed_px q b p" using Cons.prems(2) by simp
    have l1: "max 0 (bin_lower g1) \<le> int b" using m1 Cons.prems(3) by simp
    from Cons.IH[OF i1 s1 l1] obtain r2 where
      r2: "for_each_opt (grow_seed cfg q) seeds g1 = Some r2"
      and r2I: "case r2 of
        Inl e \<Rightarrow> True
      | Inr g' \<Rightarrow> grow_inv cfg q g'
          \<and> max 0 (bin_lower g') = max 0 (bin_lower g1)
          \<and> set (deferred_to_next g') \<subseteq> set (deferred_to_next g1) \<union> set seeds
          \<and> (max 0 (bin_lower g1) = 0 \<longrightarrow> deferred_to_next g' = deferred_to_next g1)"
      by blast
    have eq: "for_each_opt (grow_seed cfg q) (c # seeds) g = Some r2"
      using r Inr r2 by simp
    show ?thesis
    proof (cases r2)
      case (Inl e)
      then show ?thesis using eq by simp
    next
      case g2: (Inr g2)
      from r2I g2 have i2: "grow_inv cfg q g2"
        and m2: "max 0 (bin_lower g2) = max 0 (bin_lower g1)"
        and d2: "set (deferred_to_next g2) \<subseteq> set (deferred_to_next g1) \<union> set seeds"
        and z2: "max 0 (bin_lower g1) = 0 \<longrightarrow> deferred_to_next g2 = deferred_to_next g1"
        by simp_all
      have "set (deferred_to_next g2) \<subseteq> set (deferred_to_next g) \<union> set (c # seeds)"
        using d1 d2 by auto
      moreover have "max 0 (bin_lower g) = 0 \<longrightarrow> deferred_to_next g2 = deferred_to_next g"
        using z2 m1 d1 b1 by auto
      ultimately show ?thesis using eq g2 i2 m2 m1 by simp
    qed
  qed
qed

lemma grow_bin_inv:
  assumes inv: "bins_inv cfg q (Suc b) g" and cs: "\<forall>p\<in>set (centers ! b). seed_px q b p"
  shows "\<exists>r. grow_bin cfg q centers b g = Some r \<and>
     (case r of Inl e \<Rightarrow> True | Inr g' \<Rightarrow> bins_inv cfg q b g')"
proof -
  let ?g0 = "g\<lparr>bin_lower := int b - 1, deferred_to_next := []\<rparr>"
  let ?seeds = "deferred_to_next g @ centers ! b"
  let ?L = "max 0 (int b - 1)"
  from inv have gi: "grow_inv cfg q (g\<lparr>bin_lower := int (Suc b) - 1\<rparr>)"
    and fe: "foothills g = []"
    and ds: "\<forall>p\<in>set (deferred_to_next g). seed_px q (Suc b) p"
    by (simp_all add: bins_inv_def)
  have lv0: "levels_ok q ?L (g_marked g)"
    using gi by (auto simp: grow_inv_def intro: levels_ok_mono)
  have i0: "grow_inv cfg q ?g0"
    using gi fe lv0 by (simp add: grow_inv_def fh_ok_def)
  have ss: "\<forall>p\<in>set ?seeds. seed_px q b p"
    using ds cs by (auto intro: seed_px_mono)
  have l0: "max 0 (bin_lower ?g0) \<le> int b" by simp
  from grow_seeds_inv[OF i0 ss l0] obtain r where
    r: "for_each_opt (grow_seed cfg q) ?seeds ?g0 = Some r"
    and rI: "case r of
        Inl e \<Rightarrow> True
      | Inr g' \<Rightarrow> grow_inv cfg q g'
          \<and> max 0 (bin_lower g') = max 0 (bin_lower ?g0)
          \<and> set (deferred_to_next g') \<subseteq> set (deferred_to_next ?g0) \<union> set ?seeds
          \<and> (max 0 (bin_lower ?g0) = 0 \<longrightarrow> deferred_to_next g' = deferred_to_next ?g0)"
    by blast
  show ?thesis
  proof (cases r)
    case (Inl e)
    then show ?thesis using r by (simp add: grow_bin_def Let_def)
  next
    case (Inr g1)
    let ?m = "g_marked g1"
    from rI Inr have i1: "grow_inv cfg q g1"
      and m1: "max 0 (bin_lower g1) = ?L"
      and d1: "set (deferred_to_next g1) \<subseteq> set ?seeds"
      and z1: "?L = 0 \<longrightarrow> deferred_to_next g1 = []"
      by simp_all
    from i1 have ci: "1 \<le> capture_index g1" and v: "vals_ok q (capture_index g1) ?m"
      and lv: "levels_ok q (max 0 (bin_lower g1)) ?m" and sz: "sizes_ok cfg ?m"
      and fh: "fh_ok q (bin_lower g1) (foothills g1)" and h: "hist_ok q (history g1) ?m"
      by (simp_all add: grow_inv_def)
    from v have rm: "rect ?m" and qm: "same_shape q ?m" by (simp_all add: vals_ok_def)
    have pre: "\<forall>f\<in>set (foothills g1). \<forall>p\<in>set (snd f).
                 good_px ?m p \<and> glob_px q (bin_lower g1) p"
      using fh good_px_same_shape[OF qm] by (simp add: fh_ok_def)
    from remove_foothills_effect[OF rm qm pre, of b centers] obtain r2 where
      r2: "remove_foothills q ?m b (bin_lower g1) centers (foothills g1) = Some r2"
      and r2I: "case r2 of
        Inl e \<Rightarrow> True
      | Inr m' \<Rightarrow> rect m' \<and> same_shape ?m m'
          \<and> (\<forall>rc. inb ?m rc \<longrightarrow> cell m' rc = cell ?m rc
                \<or> (cell m' rc = GLOBBED \<and> 0 \<le> cell q rc \<and> cell q rc < bin_lower g1))"
      by blast
    show ?thesis
    proof (cases r2)
      case (Inl e)
      then show ?thesis using r Inr r2 by (simp add: grow_bin_def Let_def)
    next
      case m': (Inr m')
      from r2I m' have rm': "rect m'" and sm': "same_shape ?m m'"
        and eff: "\<forall>rc. inb ?m rc \<longrightarrow> cell m' rc = cell ?m rc
                \<or> (cell m' rc = GLOBBED \<and> 0 \<le> cell q rc \<and> cell q rc < bin_lower g1)"
        by simp_all
      have bl: "bin_lower g1 \<le> max 0 (bin_lower g1)" by simp
      note gt = glob_transition[OF v lv sz h rm' sm' eff bl]
      let ?g2 = "g1\<lparr>g_marked := m', foothills := [], history := history g1 @ [m']\<rparr>"
      have gb: "grow_bin cfg q centers b g = Some (Inr ?g2)"
        using r Inr r2 m' by (simp add: grow_bin_def Let_def)
      have "grow_inv cfg q (?g2\<lparr>bin_lower := int b - 1\<rparr>)"
        using ci gt m1 by (simp add: grow_inv_def fh_ok_def)
      moreover have "\<forall>p\<in>set (deferred_to_next ?g2). seed_px q b p"
        using d1 ss by auto
      moreover have "b \<le> 1 \<longrightarrow> deferred_to_next ?g2 = []"
        using z1 by auto
      ultimately have "bins_inv cfg q b ?g2" by (simp add: bins_inv_def)
      then show ?thesis using gb by simp
    qed
  qed
qed

lemma grow_bins_inv:
  assumes "bins_inv cfg q k g" and "\<forall>b<k. \<forall>p\<in>set (centers ! b). seed_px q b p"
  shows "\<exists>r. for_each_opt (grow_bin cfg q centers) (rev [0 ..< k]) g = Some r \<and>
     (case r of Inl e \<Rightarrow> True | Inr g' \<Rightarrow> bins_inv cfg q 0 g')"
  using assms
proof (induction k arbitrary: g)
  case 0
  then show ?case by simp
next
  case (Suc k)
  have cs: "\<forall>p\<in>set (centers ! k). seed_px q k p" using Suc.prems(2) by simp
  from grow_bin_inv[OF Suc.prems(1) cs] obtain r where
    r: "grow_bin cfg q centers k g = Some r"
    and rI: "case r of Inl e \<Rightarrow> True | Inr g' \<Rightarrow> bins_inv cfg q k g'" by blast
  show ?case
  proof (cases r)
    case (Inl e)
    then show ?thesis using r by simp
  next
    case (Inr g1)
    then have i1: "bins_inv cfg q k g1" using rI by simp
    have c1: "\<forall>b<k. \<forall>p\<in>set (centers ! b). seed_px q b p" using Suc.prems(2) by simp
    from Suc.IH[OF i1 c1] show ?thesis using r Inr by simp
  qed
qed

subsection \<open>One run of label\<close>

lemma nrows_unmarked_like [simp]: "nrows (unmarked_like q) = nrows q"
  by (simp add: unmarked_like_def nrows_def)

lemma ncols_unmarked_like [simp]: "ncols (unmarked_like q) = ncols q"
  by (cases q) (simp_all add: unmarked_like_def ncols_def)

lemma rect_unmarked_like: "rect q \<Longrightarrow> rect (unmarked_like q)"
  unfolding rect_def ncols_unmarked_like
  by (simp add: unmarked_like_def list_all_iff)

lemma cell_unmarked_like:
  assumes "rect q" and "inb q rc"
  shows "cell (unmarked_like q) rc = UNMARKED"
  using assms rect_row[OF assms(1), of "fst rc"]
  by (simp add: unmarked_like_def cell_def inb_def nrows_def)

lemma bins_inv_init:
  assumes "rect q"
  shows "bins_inv cfg q k (grower_init q)"
proof -
  let ?m = "unmarked_like q"
  have rm: "rect ?m" using assms by (rule rect_unmarked_like)
  have sm: "same_shape q ?m" by (simp add: same_shape_def)
  have cu: "\<And>rc. inb q rc \<Longrightarrow> cell ?m rc = UNMARKED"
    using cell_unmarked_like[OF assms] by simp
  have v: "vals_ok q 1 ?m" using rm sm cu by (simp add: vals_ok_def)
  have lv: "levels_ok q L ?m" for L
    using cu by (simp add: levels_ok_def UNMARKED_def)
  have lc: "label_cells ?m l = {}" if "0 < l" for l
  proof (rule ccontr)
    assume "label_cells ?m l \<noteq> {}"
    then obtain rc where "inb ?m rc" "cell ?m rc = l" by (auto simp: label_cells_def)
    then show False using cu[of rc] that inb_same_shape[OF sm, of rc] by (simp add: UNMARKED_def)
  qed
  have sz: "sizes_ok cfg ?m" using lc by (simp add: sizes_ok_def)
  have h: "hist_ok q [?m] ?m"
    using rm sm cu by (simp add: hist_ok_def UNMARKED_def TOOSMALL_def)
  show ?thesis
    using v lv sz h by (simp add: bins_inv_def grow_inv_def grower_init_def fh_ok_def)
qed

lemma centers_are_seeds:
  assumes r: "rect g"
    and fm: "find_local_maxima cfg (fst (quantize cfg g)) (snd (quantize cfg g)) = Inr centers"
  shows "\<forall>b<length centers. \<forall>p\<in>set (centers ! b). seed_px (snd (quantize cfg g)) b p"
proof (intro allI impI ballI)
  let ?q = "quantize_data cfg g" and ?px = "quantize_pixels cfg (quantize_data cfg g)"
  fix b p assume b: "b < length centers" and p: "p \<in> set (centers ! b)"
  have fm': "find_local_maxima cfg ?px ?q = Inr centers"
    using fm by (simp add: quantize_def Let_def)
  from find_local_maxima_ok[OF fm'] b p
  have bp: "b < length ?px" and pin: "p \<in> set (?px ! b)" by auto
  from quantize_pixel_props[OF bp pin] obtain r c where
    pe: "p = (int r, int c)" and rl: "r < length ?q" and cl: "c < length (?q ! r)"
    and lv: "?q ! r ! c = int b" by blast
  have rq: "rect ?q" using r by (rule rect_quantize_data)
  have "c < ncols ?q" using cl rect_row[OF rq, of r] rl by (simp add: nrows_def)
  then have "seed_px ?q b p"
    using pe rl lv by (simp add: seed_px_def nrows_def cell_def)
  then show "seed_px (snd (quantize cfg g)) b p" by (simp add: quantize_def Let_def)
qed

lemma grow_centers_run_inv:
  assumes r: "rect g"
    and fm: "find_local_maxima cfg (fst (quantize cfg g)) (snd (quantize cfg g)) = Inr centers"
  shows "\<exists>r. grow_centers_run cfg centers (snd (quantize cfg g)) = Some r \<and>
     (case r of Inl e \<Rightarrow> True | Inr st \<Rightarrow> bins_inv cfg (snd (quantize cfg g)) 0 st)"
proof -
  have rq: "rect (snd (quantize cfg g))"
    using rect_quantize_data[OF r] by (simp add: quantize_def Let_def)
  show ?thesis
    unfolding grow_centers_run_def
    by (rule grow_bins_inv[OF bins_inv_init[OF rq] centers_are_seeds[OF r fm]])
qed

lemma label_unfold:
  "label cfg g oo =
     (case find_local_maxima cfg (fst (quantize cfg g)) (snd (quantize cfg g)) of
        Inl e \<Rightarrow> Some (Inl e)
      | Inr centers \<Rightarrow>
          (case grow_centers_run cfg centers (snd (quantize cfg g)) of
             None \<Rightarrow> None
           | Some (Inl e) \<Rightarrow> Some (Inl e)
           | Some (Inr st) \<Rightarrow>
               Some (Inr (if oo then only_positive (g_marked st) else g_marked st))))"
  by (auto simp: label_def Let_def grow_centers_def split: sum.splits option.splits)

lemma bins_inv_final:
  assumes "bins_inv cfg q 0 st"
  shows "1 \<le> capture_index st" and "vals_ok q (capture_index st) (g_marked st)"
    and "sizes_ok cfg (g_marked st)" and "hist_ok q (history st) (g_marked st)"
    and "deferred_to_next st = []"
  using assms by (simp_all add: bins_inv_def grow_inv_def)

lemma in_concat_cell:
  assumes "rect m" and "v \<in> set (concat m)"
  shows "\<exists>rc. inb m rc \<and> cell m rc = v"
proof -
  from assms(2) obtain row where row: "row \<in> set m" and v: "v \<in> set row" by auto
  then obtain r where r: "r < length m" "m ! r = row" by (auto simp: in_set_conv_nth)
  from v obtain c where c: "c < length row" "row ! c = v" by (auto simp: in_set_conv_nth)
  have "inb m (r, c)" using r c rect_row[OF assms(1), of r] by (simp add: inb_def nrows_def)
  then show ?thesis using r c by (auto simp: cell_def intro!: exI[of _ "(r, c)"])
qed

lemma ex_peak_centers:
  "find_local_maxima ex_cfg1 (fst (quantize ex_cfg1 ex_peak)) (snd (quantize ex_cfg1 ex_peak))
     = Inr [[], [], [], [(1, 1)], [], []]"
  by code_simp

lemma ex_peak_grow:
  "grow_centers_run ex_cfg1 [[], [], [], [(1, 1)], [], []] (snd (quantize ex_cfg1 ex_peak))
     = Some (Inr ex_peak_run)"
  by code_simp

lemma ex_flat_grow:
  "grow_centers_run ex_cfg [[], [(1, 1)], [], [], [], []] (snd (quantize ex_cfg ex_flat))
     = Some (Inr ex_flat_run)"
  by code_simp

lemma ex_two_centers:
  "find_local_maxima ex_cfg (fst (quantize ex_cfg ex_two)) (snd (quantize ex_cfg ex_two))
     = Inr [[], [(1, 1), (1, 4)], [], [], [], []]"
  by code_simp

lemma ex_two_grow:
  "grow_centers_run ex_cfg [[], [(1, 1), (1, 4)], [], [], [], []] (snd (quantize ex_cfg ex_two))
     = Some (Inr ex_two_run)"
  by code_simp



lemma set_concat_only_positive:
  "set (concat (only_positive m)) = (\<lambda>v. if v > 0 then v else 0) ` set (concat m)"
  unfolding only_positive_def map_concat[symmetric] set_map ..

lemma count_list_map_positive:
  "0 < l \<Longrightarrow> count_list (map (\<lambda>v. if v > 0 then v else 0) row) l = count_list row (l::int)"
  by (induction row) auto

lemma object_size_only_positive:
  "0 < l \<Longrightarrow> object_size (only_positive m) l = object_size m l"
  by (induction m) (simp_all add: object_size_def only_positive_def count_list_map_positive)

lemma label_run:
  assumes fm: "find_local_maxima cfg (fst (quantize cfg g)) (snd (quantize cfg g)) = Inr centers"
    and run: "grow_centers_run cfg centers (snd (quantize cfg g)) = Some (Inr st)"
  shows "label cfg g oo = Some (Inr (if oo then only_positive (g_marked st) else g_marked st))"
  by (simp add: label_unfold fm run)

lemma run_inv:
  assumes r: "rect g"
    and fm: "find_local_maxima cfg (fst (quantize cfg g)) (snd (quantize cfg g)) = Inr centers"
    and run: "grow_centers_run cfg centers (snd (quantize cfg g)) = Some (Inr st)"
  shows "bins_inv cfg (snd (quantize cfg g)) 0 st"
  using grow_centers_run_inv[OF r fm] run by auto

lemma label_result_cases:
  assumes r: "rect g" and l: "label cfg g oo = Some (Inr out)"
  shows "\<exists>centers st.
           find_local_maxima cfg (fst (quantize cfg g)) (snd (quantize cfg g)) = Inr centers
         \<and> grow_centers_run cfg centers (snd (quantize cfg g)) = Some (Inr st)
         \<and> out = (if oo then only_positive (g_marked st) else g_marked st)"
  using l unfolding label_unfold by (auto split: sum.splits option.splits)

lemma rect_ex_flat: "rect ex_flat"
  by (simp add: rect_def ex_flat_def ncols_def)

lemma rect_ex_peak: "rect ex_peak"
  by (simp add: rect_def ex_peak_def ncols_def)

lemma rect_ex_two: "rect ex_two"
  by (simp add: rect_def ex_two_def ncols_def)

subsection \<open>Termination\<close>

text \<open>
  Claim C8. For every rectangular grid and every configuration, \<^verbatim>\<open>label\<close> returns
  (a label grid or an exception); when \<^verbatim>\<open>grow_centers\<close> has run through its bins
  no seed is left in \<open>deferred_to_next\<close>; and the \<^verbatim>\<open>while\<close> loop of every call of
  \<^verbatim>\<open>set_maximum\<close> on a rectangular label grid, with a capture index other than
  \<open>UNMARKED\<close>, ends, with an empty \<open>as_bin\<close> when it ends without an exception.
\<close>

theorem label_terminates:
  assumes "rect g"
  shows "(\<exists>r. label cfg g oo = Some r)
       \<and> (\<forall>centers st.
            find_local_maxima cfg (fst (quantize cfg g)) (snd (quantize cfg g)) = Inr centers
            \<longrightarrow> grow_centers_run cfg centers (snd (quantize cfg g)) = Some (Inr st)
            \<longrightarrow> deferred_to_next st = [])
       \<and> (\<forall>q m center bl cd ci. rect m \<longrightarrow> ci \<noteq> UNMARKED \<longrightarrow>
            (\<exists>r. flood_loop q bl cd ci (flood_init m center) = Some r
               \<and> (case r of Inl e \<Rightarrow> True | Inr s \<Rightarrow> as_bin s = [])))"
proof (intro conjI allI impI)
  show "\<exists>r. label cfg g oo = Some r"
  proof (cases "find_local_maxima cfg (fst (quantize cfg g)) (snd (quantize cfg g))")
    case (Inl e)
    then show ?thesis by (simp add: label_unfold)
  next
    case (Inr centers)
    from grow_centers_run_inv[OF assms Inr] obtain r where
      "grow_centers_run cfg centers (snd (quantize cfg g)) = Some r" by blast
    then show ?thesis using Inr by (cases r) (simp_all add: label_unfold)
  qed
next
  fix centers st
  assume "find_local_maxima cfg (fst (quantize cfg g)) (snd (quantize cfg g)) = Inr centers"
    and "grow_centers_run cfg centers (snd (quantize cfg g)) = Some (Inr st)"
  then show "deferred_to_next st = []"
    using bins_inv_final(5)[OF run_inv[OF assms]] by blast
next
  fix q m center bl cd ci
  assume m: "rect m" and ci: "ci \<noteq> UNMARKED"
  from flood_loop_total[OF m ci, of q bl cd center]
  show "\<exists>r. flood_loop q bl cd ci (flood_init m center) = Some r
          \<and> (case r of Inl e \<Rightarrow> True | Inr s \<Rightarrow> as_bin s = [])"
    by (auto split: sum.splits)
qed

theorem label_terminates_witness:
  "rect ex_flat
   \<and> (\<exists>r. label ex_cfg ex_flat True = Some r)
   \<and> label ex_cfg ex_flat True = Some (Inr [[1, 1, 1], [1, 1, 1], [1, 1, 1]])
   \<and> deferred_to_next ex_flat_run = []
   \<and> rect ex_unmarked3 \<and> (1::int) \<noteq> UNMARKED
   \<and> (\<exists>r. flood_loop ex_peak 0 3 1 (flood_init ex_unmarked3 (1, 1)) = Some r)"
proof -
  have u: "rect ex_unmarked3" by (simp add: rect_def ex_unmarked3_def ncols_def)
  have c: "(1::int) \<noteq> UNMARKED" by (simp add: UNMARKED_def)
  have l: "label ex_cfg ex_flat True = Some (Inr [[1, 1, 1], [1, 1, 1], [1, 1, 1]])"
    by (simp add: label_run[OF ex_flat_centers ex_flat_grow] ex_flat_run_def only_positive_def)
  note t = label_terminates[OF rect_ex_flat, of ex_cfg True]
  from t have a: "\<exists>r. label ex_cfg ex_flat True = Some r" by (rule conjunct1)
  from t have d: "deferred_to_next ex_flat_run = []"
    using ex_flat_centers ex_flat_grow by blast
  from t have "\<exists>r. flood_loop ex_peak 0 3 1 (flood_init ex_unmarked3 (1, 1)) = Some r
                   \<and> (case r of Inl e \<Rightarrow> True | Inr s \<Rightarrow> as_bin s = [])"
    using u c by blast
  then have f: "\<exists>r. flood_loop ex_peak 0 3 1 (flood_init ex_unmarked3 (1, 1)) = Some r"
    by blast
  from rect_ex_flat a l d u c f show ?thesis by simp
qed

subsection \<open>The sentinel TOO_SMALL\<close>



subsection \<open>The labels of the output\<close>

text \<open>The claim as stated (C3) fails on \<open>ex_two\<close>: the seed \<open>(1, 1)\<close> is a region of
  one pixel, rolled back at \<open>bin_lower = 0\<close> with the value \<^verbatim>\<open>True\<close> returned, so it
  uses up capture index 1; the block is object 2, and the labels of the output are
  \<open>{2}\<close>, not \<open>{1}\<close>.\<close>

theorem label_gap_counterexample:
  "ex_two = [[0, 0, 0, 0, 1, 1, 1], [0, 1, 0, 0, 1, 1, 1], [0, 0, 0, 0, 1, 1, 1]]
   \<and> label ex_cfg ex_two True
       = Some (Inr [[0, 0, 0, 0, 2, 2, 2], [0, 0, 0, 0, 2, 2, 2], [0, 0, 0, 0, 2, 2, 2]])"
  by code_simp

text \<open>
  Claim C3, as amended. In a run of \<^verbatim>\<open>label\<close> with \<^verbatim>\<open>only_objects=True\<close> on a
  rectangular grid that returns, every cell of the output is 0 or a label from 1 to
  \<open>capture_index - 1\<close>, where \<open>capture_index\<close> is the counter of \<^verbatim>\<open>grow_centers\<close>
  at the end of the run: 1 plus the number of calls of \<^verbatim>\<open>set_maximum\<close> that returned
  \<^verbatim>\<open>True\<close>. (A label in that range need not occur.)
\<close>

theorem labels_below_capture_index:
  assumes "rect g"
    and "find_local_maxima cfg (fst (quantize cfg g)) (snd (quantize cfg g)) = Inr centers"
    and "grow_centers_run cfg centers (snd (quantize cfg g)) = Some (Inr st)"
  shows "label cfg g True = Some (Inr (only_positive (g_marked st)))
       \<and> list_all (list_all (\<lambda>v. 0 \<le> v \<and> v < capture_index st)) (only_positive (g_marked st))"
proof -
  let ?q = "snd (quantize cfg g)" and ?m = "g_marked st"
  note inv = run_inv[OF assms]
  note ci = bins_inv_final(1)[OF inv] and v = bins_inv_final(2)[OF inv]
  from v have rm: "rect ?m" and sm: "same_shape ?q ?m"
    and vs: "\<forall>rc. inb ?q rc \<longrightarrow>
               cell ?m rc = UNMARKED \<or> cell ?m rc = GLOBBED
               \<or> (1 \<le> cell ?m rc \<and> cell ?m rc < capture_index st)"
    by (simp_all add: vals_ok_def)
  have "0 \<le> w \<and> w < capture_index st" if w: "w \<in> set (concat (only_positive ?m))" for w
  proof -
    from w obtain u where u: "u \<in> set (concat ?m)" and wu: "w = (if u > 0 then u else 0)"
      unfolding set_concat_only_positive by blast
    from in_concat_cell[OF rm u] obtain rc where rc: "inb ?m rc" "cell ?m rc = u" by blast
    from rc(1) have "inb ?q rc" using inb_same_shape[OF sm, of rc] by simp
    from vs[rule_format, OF this] rc(2) wu ci show ?thesis
      by (auto simp: UNMARKED_def GLOBBED_def)
  qed
  then have "list_all (list_all (\<lambda>v. 0 \<le> v \<and> v < capture_index st)) (only_positive ?m)"
    by (auto simp: list_all_iff)
  then show ?thesis using label_run[OF assms(2,3), of True] by simp
qed

theorem labels_below_capture_index_witness:
  "rect ex_two
   \<and> find_local_maxima ex_cfg (fst (quantize ex_cfg ex_two)) (snd (quantize ex_cfg ex_two))
       = Inr [[], [(1, 1), (1, 4)], [], [], [], []]
   \<and> grow_centers_run ex_cfg [[], [(1, 1), (1, 4)], [], [], [], []] (snd (quantize ex_cfg ex_two))
       = Some (Inr ex_two_run)
   \<and> capture_index ex_two_run = 3
   \<and> label ex_cfg ex_two True = Some (Inr (only_positive (g_marked ex_two_run)))
   \<and> list_all (list_all (\<lambda>v. 0 \<le> v \<and> v < 3)) (only_positive (g_marked ex_two_run))"
  using labels_below_capture_index[OF rect_ex_two ex_two_centers ex_two_grow]
    rect_ex_two ex_two_centers ex_two_grow
  by (simp add: ex_two_run_def)

subsection \<open>Committed cells\<close>

text \<open>
  Claim C6. In a run of \<^verbatim>\<open>label\<close> on a rectangular grid that returns, take the label
  grid as allocated and then after every call of \<^verbatim>\<open>set_maximum\<close> and of
  \<^verbatim>\<open>remove_foothills\<close>, in the order of the calls (\<open>history\<close>): the first is all
  \<open>UNMARKED\<close>, the last is the grid \<^verbatim>\<open>grow_centers\<close> returns, and a cell that holds
  \<open>GLOBBED\<close> or a positive capture index in one of these grids holds the same value
  in every later one.
\<close>

theorem committed_cells_terminal:
  assumes "rect g"
    and "find_local_maxima cfg (fst (quantize cfg g)) (snd (quantize cfg g)) = Inr centers"
    and "grow_centers_run cfg centers (snd (quantize cfg g)) = Some (Inr st)"
  shows "hd (history st) = unmarked_like (snd (quantize cfg g))
       \<and> last (history st) = g_marked st
       \<and> sorted_wrt committed_kept (history st)"
  using bins_inv_final(4)[OF run_inv[OF assms]] by (simp add: hist_ok_def)

theorem committed_cells_terminal_witness:
  "rect ex_peak
   \<and> find_local_maxima ex_cfg1 (fst (quantize ex_cfg1 ex_peak)) (snd (quantize ex_cfg1 ex_peak))
       = Inr [[], [], [], [(1, 1)], [], []]
   \<and> grow_centers_run ex_cfg1 [[], [], [], [(1, 1)], [], []] (snd (quantize ex_cfg1 ex_peak))
       = Some (Inr ex_peak_run)
   \<and> history ex_peak_run ! 3 = [[- 1, - 1, - 1], [- 1, 1, - 1], [- 1, - 1, - 1]]
   \<and> last (history ex_peak_run) = [[- 3, - 3, - 3], [- 3, 1, - 3], [- 3, - 3, - 3]]
   \<and> sorted_wrt committed_kept (history ex_peak_run)"
proof -
  from committed_cells_terminal[OF rect_ex_peak ex_peak_centers ex_peak_grow]
  have s: "sorted_wrt committed_kept (history ex_peak_run)" by blast
  have h: "history ex_peak_run ! 3 = [[- 1, - 1, - 1], [- 1, 1, - 1], [- 1, - 1, - 1]]"
    and l: "last (history ex_peak_run) = [[- 3, - 3, - 3], [- 3, 1, - 3], [- 3, - 3, - 3]]"
    by (simp_all add: ex_peak_run_def)
  from rect_ex_peak ex_peak_centers ex_peak_grow h l s show ?thesis by blast
qed

subsection \<open>The sizes of the objects\<close>

text \<open>The claim as stated (C2) fails in both parts. With an area threshold of 1 the
  peak of \<open>ex_peak\<close> is an object of one pixel: \<^verbatim>\<open>big_enough\<close> is tested before
  \<open>min_size\<close>. With an area threshold of 7 the flat grid is one object of 9 pixels:
  the flood is not stopped at the threshold.\<close>

theorem object_size_counterexample:
  "max_size ex_cfg1 = 1
   \<and> label ex_cfg1 ex_peak True = Some (Inr [[0, 0, 0], [0, 1, 0], [0, 0, 0]])
   \<and> object_size [[0, 0, 0], [0, 1, 0], [0, 0, 0]] 1 = 1
   \<and> max_size ex_cfg7 = 7
   \<and> label ex_cfg7 ex_flat True = Some (Inr [[1, 1, 1], [1, 1, 1], [1, 1, 1]])
   \<and> object_size [[1, 1, 1], [1, 1, 1], [1, 1, 1]] 1 = 9"
  by code_simp

text \<open>
  Claim C2, as amended. In the grid \<^verbatim>\<open>label\<close> returns for a rectangular input, every
  positive label that occurs covers more than \<open>min_size\<close> (6) pixels or at least
  \<open>max_size\<close> (the area threshold) pixels. And a call of \<^verbatim>\<open>set_maximum\<close> that appends
  a foothill record, which it does when the maximum-size rule captures the region,
  has changed at least \<open>max_size\<close> cells of the label grid.
\<close>

theorem retained_object_sizes:
  assumes "rect g" and "label cfg g oo = Some (Inr out)" and "0 < l"
  shows "(object_size out l = 0 \<or> min_size < int (object_size out l)
          \<or> max_size cfg \<le> int (object_size out l))
       \<and> (\<forall>q m center bl fhs ci cap m' fhs'.
            rect m \<and> same_shape q m \<and> ci \<noteq> UNMARKED \<and> good_px m center \<and> bin_px q bl center
            \<and> set_maximum cfg q m center bl fhs ci = Some (Inr (cap, m', fhs')) \<and> fhs' \<noteq> fhs
            \<longrightarrow> max_size cfg \<le> int (card {rc. inb m rc \<and> cell m' rc \<noteq> cell m rc}))"
proof (intro conjI allI impI)
  from label_result_cases[OF assms(1,2)] obtain centers st where
    fm: "find_local_maxima cfg (fst (quantize cfg g)) (snd (quantize cfg g)) = Inr centers"
    and run: "grow_centers_run cfg centers (snd (quantize cfg g)) = Some (Inr st)"
    and out: "out = (if oo then only_positive (g_marked st) else g_marked st)"
    by blast
  note inv = run_inv[OF assms(1) fm run]
  from bins_inv_final(2)[OF inv] have rm: "rect (g_marked st)" by (simp add: vals_ok_def)
  have os: "object_size out l = card (label_cells (g_marked st) l)"
    using out assms(3) by (simp add: object_size_only_positive card_label_cells[OF rm])
  from bins_inv_final(3)[OF inv] assms(3)
  have "label_cells (g_marked st) l = {} \<or> min_size < int (card (label_cells (g_marked st) l))
        \<or> max_size cfg \<le> int (card (label_cells (g_marked st) l))"
    by (simp add: sizes_ok_def)
  then show "object_size out l = 0 \<or> min_size < int (object_size out l)
          \<or> max_size cfg \<le> int (object_size out l)"
    unfolding os by auto
next
  fix q m center bl fhs ci cap m' fhs'
  assume a: "rect m \<and> same_shape q m \<and> ci \<noteq> UNMARKED \<and> good_px m center \<and> bin_px q bl center
            \<and> set_maximum cfg q m center bl fhs ci = Some (Inr (cap, m', fhs')) \<and> fhs' \<noteq> fhs"
  then have r0: "rect m" and qs: "same_shape q m" and ci: "ci \<noteq> UNMARKED"
    and gc: "good_px m center" and bc: "bin_px q bl center"
    and sm: "set_maximum cfg q m center bl fhs ci = Some (Inr (cap, m', fhs'))"
    and ne: "fhs' \<noteq> fhs" by simp_all
  from set_maximum_effect[OF r0 qs ci gc bc, of cfg fhs] sm obtain S where
    eff: "\<forall>rc. inb m rc \<longrightarrow> cell m' rc = (if rc \<in> S then ci else cell m rc)"
    and sub: "\<forall>rc\<in>S. inb m rc \<and> cell m rc = UNMARKED \<and> bl \<le> cell q rc"
    and nc: "\<not> cap \<longrightarrow> S = {}"
    and fh: "fhs' = fhs \<or> max_size cfg \<le> int (card S)"
    by auto
  have "{rc. inb m rc \<and> cell m' rc \<noteq> cell m rc} = S"
  proof (rule set_eqI, rule iffI)
    fix rc assume "rc \<in> {rc. inb m rc \<and> cell m' rc \<noteq> cell m rc}"
    then show "rc \<in> S" using eff[rule_format, of rc] by (auto split: if_splits)
  next
    fix rc assume s: "rc \<in> S"
    with sub have "inb m rc" "cell m rc = UNMARKED" by auto
    then show "rc \<in> {rc. inb m rc \<and> cell m' rc \<noteq> cell m rc}"
      using eff[rule_format, of rc] s ci by auto
  qed
  moreover from fh ne have ms: "max_size cfg \<le> int (card S)" by simp
  ultimately show "max_size cfg \<le> int (card {rc. inb m rc \<and> cell m' rc \<noteq> cell m rc})"
    by simp
qed

lemma ex_capped_call:
  "set_maximum ex_cfg1 ex_peak ex_unmarked3 (1, 1) 2 [] 1 =
     Some (Inr (True, [[- 1, - 1, - 1], [- 1, 1, - 1], [- 1, - 1, - 1]],
                [((1, 1), [(2, 2), (2, 1), (2, 0), (1, 2), (1, 0), (0, 2), (0, 1), (0, 0)])]))"
  by code_simp

lemma ex_capped_call_pre:
  "rect ex_unmarked3 \<and> same_shape ex_peak ex_unmarked3 \<and> (1::int) \<noteq> UNMARKED
   \<and> good_px ex_unmarked3 (1, 1) \<and> bin_px ex_peak 2 (1, 1)"
  by code_simp

lemma ex_peak_label:
  "label ex_cfg1 ex_peak True = Some (Inr [[0, 0, 0], [0, 1, 0], [0, 0, 0]])"
  by code_simp

theorem retained_object_sizes_witness:
  "rect ex_peak
   \<and> label ex_cfg1 ex_peak True = Some (Inr [[0, 0, 0], [0, 1, 0], [0, 0, 0]])
   \<and> (0::int) < 1
   \<and> object_size [[0, 0, 0], [0, 1, 0], [0, 0, 0]] 1 = 1
   \<and> max_size ex_cfg1 \<le> int (object_size [[0, 0, 0], [0, 1, 0], [0, 0, 0]] 1)
   \<and> rect ex_unmarked3 \<and> same_shape ex_peak ex_unmarked3 \<and> (1::int) \<noteq> UNMARKED
   \<and> good_px ex_unmarked3 (1, 1) \<and> bin_px ex_peak 2 (1, 1)
   \<and> set_maximum ex_cfg1 ex_peak ex_unmarked3 (1, 1) 2 [] 1 =
       Some (Inr (True, [[- 1, - 1, - 1], [- 1, 1, - 1], [- 1, - 1, - 1]],
                  [((1, 1), [(2, 2), (2, 1), (2, 0), (1, 2), (1, 0), (0, 2), (0, 1), (0, 0)])]))
   \<and> max_size ex_cfg1
       \<le> int (card {rc. inb ex_unmarked3 rc
                       \<and> cell [[- 1, - 1, - 1], [- 1, 1, - 1], [- 1, - 1, - 1]] rc
                           \<noteq> cell ex_unmarked3 rc})"
proof -
  have p: "(0::int) < 1" by simp
  note t = retained_object_sizes[OF rect_ex_peak ex_peak_label p]
  have o: "object_size [[0, 0, 0], [0, 1, 0], [0, 0, 0]] 1 = 1"
    by (simp add: object_size_def)
  have m: "max_size ex_cfg1 = 1" by (simp add: ex_cfg1_def)
  from t have a: "max_size ex_cfg1 \<le> int (object_size [[0, 0, 0], [0, 1, 0], [0, 0, 0]] 1)"
    by (simp add: o m)
  from t[THEN conjunct2, rule_format, of ex_unmarked3 ex_peak 1 "(1, 1)" 2 "[]" True
      "[[- 1, - 1, - 1], [- 1, 1, - 1], [- 1, - 1, - 1]]"
      "[((1, 1), [(2, 2), (2, 1), (2, 0), (1, 2), (1, 0), (0, 2), (0, 1), (0, 0)])]"]
    ex_capped_call_pre ex_capped_call
  have b: "max_size ex_cfg1
       \<le> int (card {rc. inb ex_unmarked3 rc
                       \<and> cell [[- 1, - 1, - 1], [- 1, 1, - 1], [- 1, - 1, - 1]] rc
                           \<noteq> cell ex_unmarked3 rc})"
    by simp
  from rect_ex_peak ex_peak_label p o a ex_capped_call_pre ex_capped_call b
  show ?thesis by blast
qed

end
